theory Spec2Isabelle
  imports Complex_Main "HOL-Library.Sublist"
begin

section \<open>Text: code units, character classes, string primitives\<close>

text \<open>
  A JavaScript string is modelled as a \<^typ>\<open>string\<close>, one \<^typ>\<open>char\<close> per code unit.
  \<^typ>\<open>char\<close> has 8 bits, so the model covers the code units \<open>0x00\<close> to \<open>0xFF\<close>
  (ASCII and Latin-1, which includes the no-break space \<open>0xA0\<close> that the normalizer
  replaces); code units above \<open>0xFF\<close> are outside the model.
\<close>

definition is_digit :: "char \<Rightarrow> bool" where
  \<comment> \<open>the class \<open>\d\<close>\<close>
  "is_digit c = (c \<in> set ''0123456789'')"

definition is_upper :: "char \<Rightarrow> bool" where
  \<comment> \<open>the class \<open>[A-Z]\<close>\<close>
  "is_upper c = (c \<in> set ''ABCDEFGHIJKLMNOPQRSTUVWXYZ'')"

definition is_lower :: "char \<Rightarrow> bool" where
  "is_lower c = (c \<in> set ''abcdefghijklmnopqrstuvwxyz'')"

definition is_word :: "char \<Rightarrow> bool" where
  \<comment> \<open>the class \<open>\w\<close>, which decides the word boundary \<open>\b\<close>\<close>
  "is_word c = (is_digit c \<or> is_upper c \<or> is_lower c \<or> c = CHR ''_'')"

definition is_space :: "char \<Rightarrow> bool" where
  \<comment> \<open>the class \<open>\s\<close> and the characters \<open>trim()\<close> strips: tab, line feed, vertical tab,
      form feed, carriage return, space, no-break space\<close>
  "is_space c = (c \<in> {CHR 0x09, CHR 0x0A, CHR 0x0B, CHR 0x0C, CHR 0x0D, CHR 0x20, CHR 0xA0})"

definition is_dot :: "char \<Rightarrow> bool" where
  \<comment> \<open>the class \<open>.\<close>: anything but a line terminator\<close>
  "is_dot c = (c \<noteq> CHR 0x0A \<and> c \<noteq> CHR 0x0D)"

definition is_blank :: "char \<Rightarrow> bool" where
  \<comment> \<open>the class \<open>[ \t]\<close>\<close>
  "is_blank c = (c = CHR 0x20 \<or> c = CHR 0x09)"

definition is_chr :: "char \<Rightarrow> char \<Rightarrow> bool" where
  \<comment> \<open>a literal character\<close>
  "is_chr a c = (c = a)"

definition trim :: "string \<Rightarrow> string" where
  "trim s = rev (dropWhile is_space (rev (dropWhile is_space s)))"

definition upper_char :: "char \<Rightarrow> string" where
  \<comment> \<open>\<open>toUpperCase\<close> on one code unit: \<open>a-z\<close> and the Latin-1 lower-case letters move down
      by \<open>0x20\<close>, the sharp s \<open>0xDF\<close> becomes \<open>SS\<close>; the micro sign \<open>0xB5\<close> and \<open>0xFF\<close>, whose
      upper-case forms lie above \<open>0xFF\<close>, are left as they are.\<close>
  "upper_char c =
     (let n = (of_char c :: int) in
      if 97 \<le> n \<and> n \<le> 122 then [char_of (n - 32)]
      else if n = 223 then ''SS''
      else if 224 \<le> n \<and> n \<le> 254 \<and> n \<noteq> 247 then [char_of (n - 32)]
      else [c])"

definition toUpperCase :: "string \<Rightarrow> string" where
  "toUpperCase s = concat (map upper_char s)"

fun str_includes :: "string \<Rightarrow> string \<Rightarrow> bool" where
  \<comment> \<open>\<open>s.includes(t)\<close>\<close>
  "str_includes [] t = (t = [])"
| "str_includes (c # cs) t = (prefix t (c # cs) \<or> str_includes cs t)"


function show_digits :: "int \<Rightarrow> string" where
  \<comment> \<open>the decimal digits of a non-negative integer\<close>
  "show_digits i =
     (if i < 10 then [char_of (48 + i)]
      else show_digits (i div 10) @ [char_of (48 + i mod 10)])"
  by pat_completeness auto
termination
  by (relation "measure nat") auto

declare show_digits.simps [simp del]

definition show_int :: "int \<Rightarrow> string" where
  \<comment> \<open>the decimal rendering of an integer, as a template literal gives it\<close>
  "show_int i = (if i < 0 then CHR ''-'' # show_digits (- i) else show_digits i)"


section \<open>Regular expressions as backtracking matchers\<close>

text \<open>
  A regular expression of the source is a matcher: from a match state it returns every
  state in which the expression can end, in the order in which a backtracking engine
  tries them. The first element is what the engine commits to when the rest of the
  pattern succeeds there; the later ones are what it backtracks into.
\<close>

record mstate =
  seen :: string  \<comment> \<open>the input already consumed, last character first\<close>
  rest :: string  \<comment> \<open>the input still to read\<close>
  caps :: "(nat \<times> string) list"  \<comment> \<open>the capture groups set so far, latest first\<close>

type_synonym matcher = "mstate \<Rightarrow> mstate list"

definition advance :: "mstate \<Rightarrow> nat \<Rightarrow> mstate" where
  "advance st k = st\<lparr>seen := rev (take k (rest st)) @ seen st, rest := drop k (rest st)\<rparr>"

definition rep :: "(char \<Rightarrow> bool) \<Rightarrow> nat \<Rightarrow> nat option \<Rightarrow> matcher" where
  \<comment> \<open>a character class under a greedy quantifier \<open>{lo,hi}\<close> (\<open>hi = None\<close> for \<open>{lo,}\<close>):
      the longest run first\<close>
  "rep P lo hi st =
     (let n = length (takeWhile P (rest st));
          m = (case hi of None \<Rightarrow> n | Some h \<Rightarrow> min h n)
      in map (advance st) (rev [lo ..< Suc m]))"

definition rep_lazy :: "(char \<Rightarrow> bool) \<Rightarrow> nat \<Rightarrow> nat option \<Rightarrow> matcher" where
  \<comment> \<open>a character class under a lazy quantifier: the shortest run first\<close>
  "rep_lazy P lo hi st =
     (let n = length (takeWhile P (rest st));
          m = (case hi of None \<Rightarrow> n | Some h \<Rightarrow> min h n)
      in map (advance st) [lo ..< Suc m])"

definition one :: "(char \<Rightarrow> bool) \<Rightarrow> matcher" where
  \<comment> \<open>a character class, or a literal character, once\<close>
  "one P = rep P 1 (Some 1)"

definition seq :: "matcher \<Rightarrow> matcher \<Rightarrow> matcher" where
  "seq r1 r2 st = concat (map r2 (r1 st))"

definition eps :: matcher where
  "eps st = [st]"

definition seqs :: "matcher list \<Rightarrow> matcher" where
  "seqs rs = foldr seq rs eps"

definition alt :: "matcher \<Rightarrow> matcher \<Rightarrow> matcher" where
  \<comment> \<open>\<open>r1|r2\<close>\<close>
  "alt r1 r2 st = r1 st @ r2 st"

definition opt :: "matcher \<Rightarrow> matcher" where
  \<comment> \<open>\<open>r?\<close>, greedy\<close>
  "opt r st = r st @ [st]"

definition grp :: "nat \<Rightarrow> matcher \<Rightarrow> matcher" where
  \<comment> \<open>capture group number \<open>i\<close>\<close>
  "grp i r st =
     map (\<lambda>st'. st'\<lparr>caps := (i, take (length (rest st) - length (rest st')) (rest st)) # caps st'\<rparr>)
       (r st)"

definition bol :: matcher where
  \<comment> \<open>\<open>^\<close> (no multiline flag)\<close>
  "bol st = (if seen st = [] then [st] else [])"

definition eol :: matcher where
  \<comment> \<open>\<open>$\<close> (no multiline flag)\<close>
  "eol st = (if rest st = [] then [st] else [])"

definition wordb :: matcher where
  \<comment> \<open>\<open>\b\<close>: exactly one of the two neighbours is a word character\<close>
  "wordb st =
     (if (case seen st of [] \<Rightarrow> False | c # _ \<Rightarrow> is_word c)
         \<noteq> (case rest st of [] \<Rightarrow> False | c # _ \<Rightarrow> is_word c)
      then [st] else [])"

definition nlook :: "matcher \<Rightarrow> matcher" where
  \<comment> \<open>negative lookahead \<open>(?!r)\<close>\<close>
  "nlook r st = (if r st = [] then [st] else [])"

fun search_from :: "matcher \<Rightarrow> string \<Rightarrow> string \<Rightarrow> mstate option" where
  \<comment> \<open>the leftmost match: the pattern is tried at each start position in turn\<close>
  "search_from r bef [] =
     (case r \<lparr>seen = bef, rest = [], caps = []\<rparr> of [] \<Rightarrow> None | st # _ \<Rightarrow> Some st)"
| "search_from r bef (c # cs) =
     (case r \<lparr>seen = bef, rest = c # cs, caps = []\<rparr> of
        [] \<Rightarrow> search_from r (c # bef) cs
      | st # _ \<Rightarrow> Some st)"

definition str_match :: "string \<Rightarrow> matcher \<Rightarrow> mstate option" where
  \<comment> \<open>\<open>s.match(r)\<close> for a pattern without the global flag\<close>
  "str_match s r = search_from r [] s"

definition group :: "mstate \<Rightarrow> nat \<Rightarrow> string option" where
  \<comment> \<open>\<open>m[i]\<close>: \<open>None\<close> is \<open>undefined\<close>, a group that took no part in the match\<close>
  "group m i = map_of (caps m) i"

definition replace_class :: "(char \<Rightarrow> bool) \<Rightarrow> string \<Rightarrow> string \<Rightarrow> string" where
  \<comment> \<open>\<open>s.replace(/[...]/g, t)\<close> for a pattern that is one character class\<close>
  "replace_class P t s = concat (map (\<lambda>c. if P c then t else [c]) s)"

function replace_runs :: "(char \<Rightarrow> bool) \<Rightarrow> string \<Rightarrow> string \<Rightarrow> string" where
  \<comment> \<open>\<open>s.replace(/[...]+/g, t)\<close>: each maximal run of the class becomes one \<open>t\<close>\<close>
  "replace_runs P t [] = []"
| "replace_runs P t (c # cs) =
     (if P c then t @ replace_runs P t (dropWhile P cs) else c # replace_runs P t cs)"
  by pat_completeness auto
termination
  by (relation "measure (\<lambda>(P, t, s). length s)")
     (auto simp: length_dropWhile_le less_Suc_eq_le)

function split_from :: "matcher \<Rightarrow> string \<Rightarrow> string \<Rightarrow> string \<Rightarrow> string list" where
  \<comment> \<open>the loop of \<open>s.split(r)\<close>: \<open>cur\<close> is the piece being collected (last character first),
      \<open>bef\<close> the input before the current position. A match that consumes input closes
      the piece; an empty match closes a non-empty piece and is skipped otherwise.\<close>
  "split_from r cur bef [] = [rev cur]"
| "split_from r cur bef (c # cs) =
     (case r \<lparr>seen = bef, rest = c # cs, caps = []\<rparr> of
        [] \<Rightarrow> split_from r (c # cur) (c # bef) cs
      | st # _ \<Rightarrow>
          if length (rest st) < length (c # cs)
          then rev cur # split_from r [] (seen st) (rest st)
          else if cur = [] then split_from r [c] (c # bef) cs
          else rev cur # split_from r [c] (c # bef) cs)"
  by pat_completeness auto
termination
  by (relation "measure (\<lambda>(r, cur, bef, s). length s)") auto

definition str_split :: "string \<Rightarrow> matcher \<Rightarrow> string list" where
  \<comment> \<open>\<open>s.split(r)\<close>; the empty string gives one empty piece unless \<open>r\<close> matches it\<close>
  "str_split s r =
     (if s = [] then (if r \<lparr>seen = [], rest = [], caps = []\<rparr> = [] then [[]] else [])
      else split_from r [] [] s)"

section \<open>Numbers\<close>

text \<open>
  A JavaScript number is a double. The model keeps the three non-finite values apart and
  represents a finite double by the exact rational it was computed from: a literal too
  large for a double becomes an infinity, as in the source language, but the rounding of
  a finite value to 53 bits is not modelled, and neither is the sign of zero.
\<close>

datatype number = Fin rat | NaN | PosInf | NegInf

datatype jsval = Undefined | Str string | Num number

definition isFinite :: "number \<Rightarrow> bool" where
  "isFinite n = (case n of Fin _ \<Rightarrow> True | _ \<Rightarrow> False)"

definition as_double :: "rat \<Rightarrow> number" where
  \<comment> \<open>overflow: a magnitude of at least \<open>2^1024 - 2^970\<close> rounds to an infinity\<close>
  "as_double q =
     (if \<bar>q\<bar> < 2 ^ 1024 - 2 ^ 970 then Fin q else if 0 < q then PosInf else NegInf)"


definition digit_val :: "char \<Rightarrow> int" where
  "digit_val c = of_char c - 48"

definition digits_val :: "string \<Rightarrow> int" where
  "digits_val ds = foldl (\<lambda>a c. 10 * a + digit_val c) 0 ds"

definition radix_digit :: "char \<Rightarrow> int option" where
  "radix_digit c =
     (if is_digit c then Some (of_char c - 48)
      else if c \<in> set ''abcdef'' then Some (of_char c - 87)
      else if c \<in> set ''ABCDEF'' then Some (of_char c - 55)
      else None)"

definition radix_val :: "int \<Rightarrow> string \<Rightarrow> int option" where
  \<comment> \<open>the digits of a \<open>0x\<close>, \<open>0o\<close> or \<open>0b\<close> literal\<close>
  "radix_val b ds =
     (if ds \<noteq> [] \<and> list_all (\<lambda>c. case radix_digit c of None \<Rightarrow> False | Some v \<Rightarrow> v < b) ds
      then Some (foldl (\<lambda>a c. b * a + (case radix_digit c of None \<Rightarrow> 0 | Some v \<Rightarrow> v)) 0 ds)
      else None)"

definition radix_literal :: "string \<Rightarrow> int option" where
  "radix_literal s =
     (case s of
        z # x # ds \<Rightarrow>
          if z \<noteq> CHR ''0'' then None
          else if x = CHR ''x'' \<or> x = CHR ''X'' then radix_val 16 ds
          else if x = CHR ''o'' \<or> x = CHR ''O'' then radix_val 8 ds
          else if x = CHR ''b'' \<or> x = CHR ''B'' then radix_val 2 ds
          else None
      | _ \<Rightarrow> None)"

definition split_sign :: "string \<Rightarrow> bool \<times> string" where
  \<comment> \<open>an optional \<open>+\<close> or \<open>-\<close>; the flag says negative\<close>
  "split_sign s =
     (case s of
        c # t \<Rightarrow> if c = CHR ''-'' then (True, t) else if c = CHR ''+'' then (False, t) else (False, s)
      | [] \<Rightarrow> (False, s))"

definition exponent_part :: "string \<Rightarrow> int option" where
  \<comment> \<open>nothing, or \<open>e\<close>/\<open>E\<close>, an optional sign and at least one digit, up to the end\<close>
  "exponent_part s =
     (case s of
        [] \<Rightarrow> Some 0
      | c # t \<Rightarrow>
          if c = CHR ''e'' \<or> c = CHR ''E'' then
            (let (neg, ds) = split_sign t in
             if ds \<noteq> [] \<and> list_all is_digit ds
             then Some (if neg then - digits_val ds else digits_val ds)
             else None)
          else None)"

definition scale10 :: "rat \<Rightarrow> int \<Rightarrow> rat" where
  "scale10 q e = (if 0 \<le> e then q * 10 ^ nat e else q / 10 ^ nat (- e))"

definition decimal_literal :: "string \<Rightarrow> rat option" where
  \<comment> \<open>an unsigned decimal literal: \<open>digits\<close>, \<open>digits.\<close>, \<open>digits.digits\<close> or \<open>.digits\<close>, then an
      optional exponent\<close>
  "decimal_literal u =
     (let ip = takeWhile is_digit u;
          r1 = dropWhile is_digit u;
          dot = (r1 \<noteq> [] \<and> hd r1 = CHR ''.'');
          fp = (if dot then takeWhile is_digit (tl r1) else []);
          r2 = (if dot then dropWhile is_digit (tl r1) else r1)
      in if ip = [] \<and> fp = [] then None
         else (case exponent_part r2 of
                 None \<Rightarrow> None
               | Some e \<Rightarrow>
                   Some (scale10 (of_int (digits_val ip)
                                  + of_int (digits_val fp) / 10 ^ length fp) e)))"

definition StringToNumber :: "string \<Rightarrow> number" where
  \<comment> \<open>\<open>Number(s)\<close> on a string: white space around the literal is dropped, the empty
      string is 0, whatever is not a numeric literal is \<open>NaN\<close>\<close>
  "StringToNumber s =
     (let t = trim s in
      if t = [] then Fin 0
      else (case radix_literal t of
              Some n \<Rightarrow> as_double (of_int n)
            | None \<Rightarrow>
                (let (neg, u) = split_sign t in
                 if u = ''Infinity'' then (if neg then NegInf else PosInf)
                 else (case decimal_literal u of
                         None \<Rightarrow> NaN
                       | Some q \<Rightarrow> as_double (if neg then - q else q)))))"

fun frac_digits :: "nat \<Rightarrow> rat \<Rightarrow> string" where
  "frac_digits 0 r = []"
| "frac_digits (Suc k) r =
     (if r = 0 then []
      else (let d = \<lfloor>r * 10\<rfloor> in char_of (48 + d) # frac_digits k (r * 10 - of_int d)))"

definition Number_toString :: "number \<Rightarrow> string" where
  \<comment> \<open>\<open>String(n)\<close> on a number: exact for the integers that print without an exponent;
      a fraction prints its first 17 decimals, which stands in for the shortest
      round-trip form of the double. No function below reaches it with a fraction.\<close>
  "Number_toString n =
     (case n of
        NaN \<Rightarrow> ''NaN''
      | PosInf \<Rightarrow> ''Infinity''
      | NegInf \<Rightarrow> ''-Infinity''
      | Fin q \<Rightarrow>
          (let a = \<bar>q\<bar>; i = \<lfloor>a\<rfloor>; f = a - of_int i in
           (if q < 0 then ''-'' else []) @ show_digits i
           @ (if f = 0 then [] else CHR ''.'' # frac_digits 17 f)))"

definition js_String :: "jsval \<Rightarrow> string" where
  \<comment> \<open>\<open>String(v)\<close>\<close>
  "js_String v =
     (case v of Undefined \<Rightarrow> ''undefined'' | Str s \<Rightarrow> s | Num n \<Rightarrow> Number_toString n)"

definition js_Number :: "jsval \<Rightarrow> number" where
  \<comment> \<open>\<open>Number(v)\<close>\<close>
  "js_Number v = (case v of Undefined \<Rightarrow> NaN | Str s \<Rightarrow> StringToNumber s | Num n \<Rightarrow> n)"

definition of_opt :: "string option \<Rightarrow> jsval" where
  \<comment> \<open>an optional string as a value: an absent one is \<open>undefined\<close>\<close>
  "of_opt x = (case x of None \<Rightarrow> Undefined | Some s \<Rightarrow> Str s)"

section \<open>The data model: \<open>utils/types.ts\<close>\<close>

record ParsedRow =
  studentNo :: "string option"
  sin_field :: "string option"  \<comment> \<open>the field \<open>sin\<close>\<close>
  gov :: "string option"
  cert :: "string option"
  name :: "string option"
  eosDate :: "string option"
  amount :: jsval  \<comment> \<open>a string, a number, or absent\<close>
  extra :: "(string \<times> jsval) list"  \<comment> \<open>the fields under other keys\<close>

record ParsedTotals =
  count :: "number option"
  total_amount :: jsval  \<comment> \<open>the field \<open>amount\<close>: a number, a numeric string, or absent\<close>

record ParsedPage =
  sheetName :: "string option"
  headerLines :: "string list option"
  columns :: "string list option"
  rows :: "ParsedRow list"
  totals :: "ParsedTotals option"

section \<open>The parser: \<open>utils/parse.ts\<close>\<close>

definition normalize :: "string \<Rightarrow> string" where
  "normalize s =
     trim (replace_runs is_blank '' '' (replace_class (is_chr (CHR 0xA0)) '' '' s))"

definition header_tokens :: "string list" where
  "header_tokens = [''STUDENT'', ''SIN'', ''GOV'', ''CERT'', ''NAME'', ''EOS'', ''DATE'', ''AMOUNT'']"

definition looksLikeHeader :: "string \<Rightarrow> bool" where
  "looksLikeHeader line =
     (let L = toUpperCase line in
      foldl (\<lambda>n t. if str_includes L t then n + 1 else n) (0::nat) header_tokens \<ge> 3)"

definition canonical_columns :: "string list" where
  "canonical_columns =
     [''STUDENT NO'', ''SIN'', ''GOV'', ''CERT #'', ''ABBREVIATED NAME'', ''EOS DATE'', ''AMOUNT'']"

definition column_separator :: matcher where
  \<comment> \<open>\<open>/ {2,}|\t+/\<close>\<close>
  "column_separator = alt (rep (is_chr (CHR 0x20)) 2 None) (rep (is_chr (CHR 0x09)) 1 None)"

definition splitColumns :: "string \<Rightarrow> string list" where
  "splitColumns header =
     (let parts = filter (\<lambda>s. s \<noteq> [])
                    (map trim (str_split (replace_class (is_chr (CHR ''|'')) ''  '' header)
                                 column_separator))
      in if length parts \<ge> 3 then parts else canonical_columns)"

definition strip_class :: "char \<Rightarrow> bool" where
  \<comment> \<open>the class \<open>[,$\s$]\<close>\<close>
  "strip_class c = (c = CHR '','' \<or> c = CHR ''$'' \<or> is_space c)"

definition toNumber :: "jsval \<Rightarrow> number" where
  "toNumber v =
     (case v of
        Num n \<Rightarrow> if isFinite n then n else Fin 0
      | _ \<Rightarrow>
          (let s = replace_class strip_class [] (js_String v);
               n = (if s = [] then js_Number (Num (Fin 0)) else js_Number (Str s))
           in if isFinite n then n else Fin 0))"

definition totals_amount_rx :: matcher where
  \<comment> \<open>\<open>/[$]?\s*([\d,]+\.\d{2})\b/\<close>\<close>
  "totals_amount_rx =
     seqs [opt (one (is_chr (CHR ''$''))),
           rep is_space 0 None,
           grp 1 (seqs [rep (\<lambda>c. is_digit c \<or> c = CHR '','') 1 None,
                        one (is_chr (CHR ''.'')),
                        rep is_digit 2 (Some 2)]),
           wordb]"

definition totals_count_rx :: matcher where
  \<comment> \<open>\<open>/\b(\d{1,4})\b(?!.*\b\d{1,4}\b)/\<close>\<close>
  "totals_count_rx =
     seqs [wordb,
           grp 1 (rep is_digit 1 (Some 4)),
           wordb,
           nlook (seqs [rep is_dot 0 None, wordb, rep is_digit 1 (Some 4), wordb])]"

definition parseTotals :: "string \<Rightarrow> ParsedTotals option" where
  "parseTotals line =
     (let L = toUpperCase line in
      if \<not> str_includes L ''TOTAL'' then None
      else
        (let mAmount = str_match line totals_amount_rx;
             amount = (case mAmount of
                         None \<Rightarrow> Undefined
                       | Some m \<Rightarrow> Num (toNumber (of_opt (group m 1))));
             mCount = str_match line totals_count_rx;
             count = (case mCount of
                        None \<Rightarrow> None
                      | Some m \<Rightarrow> Some (js_Number (of_opt (group m 1))))
         in if amount = Undefined \<and> count = None then None
            else Some \<lparr>count = count, total_amount = amount\<rparr>))"

definition row_rx :: matcher where
  \<comment> \<open>\<open>/^(\d{3,})\s+(\d{3}-\d{3}-\d{3})\s+([A-Z]{2})?\s*(\d{4,})\s+(.+?)\s+(\d{2}\/\d{2}\/\d{2})\s+([$]?[\d,]+\.\d{2})$/\<close>\<close>
  "row_rx =
     seqs [bol,
           grp 1 (rep is_digit 3 None),
           rep is_space 1 None,
           grp 2 (seqs [rep is_digit 3 (Some 3), one (is_chr (CHR ''-'')),
                        rep is_digit 3 (Some 3), one (is_chr (CHR ''-'')),
                        rep is_digit 3 (Some 3)]),
           rep is_space 1 None,
           opt (grp 3 (rep is_upper 2 (Some 2))),
           rep is_space 0 None,
           grp 4 (rep is_digit 4 None),
           rep is_space 1 None,
           grp 5 (rep_lazy is_dot 1 None),
           rep is_space 1 None,
           grp 6 (seqs [rep is_digit 2 (Some 2), one (is_chr (CHR ''/'')),
                        rep is_digit 2 (Some 2), one (is_chr (CHR ''/'')),
                        rep is_digit 2 (Some 2)]),
           rep is_space 1 None,
           grp 7 (seqs [opt (one (is_chr (CHR ''$''))),
                        rep (\<lambda>c. is_digit c \<or> c = CHR '','') 1 None,
                        one (is_chr (CHR ''.'')),
                        rep is_digit 2 (Some 2)]),
           eol]"

definition parseRow :: "string \<Rightarrow> ParsedRow option" where
  "parseRow line =
     (let l = normalize line in
      case str_match l row_rx of
        None \<Rightarrow> None
      | Some m \<Rightarrow>
          Some \<lparr>studentNo = group m 1,
                sin_field = group m 2,
                gov = (let g = trim (case group m 3 of None \<Rightarrow> [] | Some s \<Rightarrow> s)
                       in if g = [] then None else Some g),
                cert = group m 4,
                name = group m 5,
                eosDate = group m 6,
                amount = of_opt (group m 7),
                extra = []\<rparr>)"

fun findIndex :: "('a \<Rightarrow> bool) \<Rightarrow> 'a list \<Rightarrow> nat option" where
  \<comment> \<open>\<open>xs.findIndex(P)\<close>; \<open>None\<close> is the result \<open>-1\<close>\<close>
  "findIndex P [] = None"
| "findIndex P (x # xs) =
     (if P x then Some 0 else (case findIndex P xs of None \<Rightarrow> None | Some i \<Rightarrow> Some (Suc i)))"

fun scan_lines :: "string list \<Rightarrow> ParsedRow list \<Rightarrow> ParsedRow list \<times> ParsedTotals option" where
  \<comment> \<open>the loop of \<open>parseFromLines\<close> over the lines after the header, with the rows
      collected so far\<close>
  "scan_lines [] rs = (rs, None)"
| "scan_lines (l # ls) rs =
     (case parseTotals l of
        Some t \<Rightarrow> (rs, Some t)
      | None \<Rightarrow>
          (case parseRow l of
             Some r \<Rightarrow> scan_lines ls (rs @ [r])
           | None \<Rightarrow> scan_lines ls rs))"

definition clean_lines :: "string list \<Rightarrow> string list" where
  \<comment> \<open>\<open>lines.map(normalize).filter(Boolean)\<close>\<close>
  "clean_lines lines = filter (\<lambda>s. s \<noteq> []) (map normalize lines)"

definition header_index :: "string list \<Rightarrow> nat" where
  \<comment> \<open>\<open>headerIdx\<close> of \<open>parseFromLines\<close>, from the cleaned lines\<close>
  "header_index clean =
     (case findIndex looksLikeHeader clean of
        None \<Rightarrow> min 4 (length clean)
      | Some i \<Rightarrow> i)"

definition parseFromLines :: "string list \<Rightarrow> int \<Rightarrow> ParsedPage" where
  "parseFromLines lines pageIndex =
     (let clean = clean_lines lines;
          headerIdx = header_index clean;
          hdrLines = take headerIdx clean;
          headerLine = (if headerIdx < length clean then clean ! headerIdx else []);
          cols = splitColumns headerLine;
          (rs, tot) = scan_lines (drop (headerIdx + 1) clean) [];
          sheet = (case hdrLines of
                     [] \<Rightarrow> ''Page '' @ show_int pageIndex
                   | h # _ \<Rightarrow> if h \<noteq> [] then h else ''Page '' @ show_int pageIndex)
      in \<lparr>sheetName = Some sheet, headerLines = Some hdrLines, columns = Some cols,
          rows = rs, totals = tot\<rparr>)"

definition line_break :: matcher where
  \<comment> \<open>\<open>/\r?\n/\<close>\<close>
  "line_break = seqs [opt (one (is_chr (CHR 0x0D))), one (is_chr (CHR 0x0A))]"

definition parseDisbursementPageFromText :: "string \<Rightarrow> int \<Rightarrow> ParsedPage" where
  "parseDisbursementPageFromText rawText pageIndex =
     parseFromLines (str_split rawText line_break) pageIndex"

section \<open>The workbook assembler: \<open>utils/makeExcel.ts\<close>\<close>

definition asString :: "jsval \<Rightarrow> string" where
  "asString v = (case v of Undefined \<Rightarrow> [] | Str s \<Rightarrow> s | Num n \<Rightarrow> Number_toString n)"

definition toNumber_makeExcel :: "jsval \<Rightarrow> number" where
  \<comment> \<open>\<open>toNumber\<close> of \<open>makeExcel.ts\<close>\<close>
  "toNumber_makeExcel v =
     (case v of
        Num n \<Rightarrow> if isFinite n then n else Fin 0
      | _ \<Rightarrow>
          (let s = replace_class strip_class [] (asString v);
               n = (if s = [] then js_Number (Num (Fin 0)) else js_Number (Str s))
           in if isFinite n then n else Fin 0))"

function group3 :: "string \<Rightarrow> string" where
  \<comment> \<open>a comma before every group of three digits, counted from the right\<close>
  "group3 ds =
     (if length ds \<le> 3 then ds
      else group3 (take (length ds - 3) ds) @ '','' @ drop (length ds - 3) ds)"
  by pat_completeness auto
termination
  by (relation "measure length") auto

declare group3.simps [simp del]

definition fmtMoney :: "number \<Rightarrow> string" where
  \<comment> \<open>Modelled from the spec: \<open>n.toLocaleString(undefined, {minimumFractionDigits: 2,
      maximumFractionDigits: 2})\<close> is the runtime's locale-dependent formatter, which is not
      part of the repository. The spec gives its output as \<open>#,##0.00\<close> (thousands
      separator, two decimals); the value is rounded to cents, halves away from zero. The
      infinity sign of the non-finite cases is written in UTF-8.\<close>
  "fmtMoney n =
     (case n of
        NaN \<Rightarrow> ''NaN''
      | PosInf \<Rightarrow> [CHR 0xE2, CHR 0x88, CHR 0x9E]
      | NegInf \<Rightarrow> [CHR ''-'', CHR 0xE2, CHR 0x88, CHR 0x9E]
      | Fin q \<Rightarrow>
          (let c = \<lfloor>\<bar>q\<bar> * 100 + 1 / 2\<rfloor> in
           (if q < 0 then ''-'' else [])
           @ group3 (show_digits (c div 100))
           @ [CHR ''.'', char_of (48 + (c mod 100) div 10), char_of (48 + c mod 10)]))"





definition defaultHeaders :: "string list" where
  "defaultHeaders =
     [''STUDENT NO'', ''SIN'', ''GOV'', ''CERT #'', ''ABBREVIATED NAME'', ''EOS DATE'', ''AMOUNT'']"

definition usesParserColumns :: "ParsedPage \<Rightarrow> bool" where
  \<comment> \<open>the test \<open>Array.isArray(page.columns) && page.columns.length\<close>\<close>
  "usesParserColumns page = (case columns page of None \<Rightarrow> False | Some cs \<Rightarrow> cs \<noteq> [])"

definition page_headers :: "ParsedPage \<Rightarrow> string list" where
  \<comment> \<open>\<open>headers\<close>\<close>
  "page_headers page =
     (if usesParserColumns page
      then map (\<lambda>c. asString (Str c)) (case columns page of None \<Rightarrow> [] | Some cs \<Rightarrow> cs)
      else defaultHeaders)"

definition headerKeyMap :: "(string \<times> (ParsedRow \<Rightarrow> jsval)) list" where
  "headerKeyMap =
     [(''STUDENT NO'', \<lambda>r. of_opt (studentNo r)),
      (''SIN'', \<lambda>r. of_opt (sin_field r)),
      (''GOV'', \<lambda>r. of_opt (gov r)),
      (''CERT #'', \<lambda>r. of_opt (cert r)),
      (''ABBREVIATED NAME'', \<lambda>r. of_opt (name r)),
      (''EOS DATE'', \<lambda>r. of_opt (eosDate r)),
      (''AMOUNT'', \<lambda>r. amount r)]"

definition row_property :: "ParsedRow \<Rightarrow> string \<Rightarrow> jsval" where
  \<comment> \<open>\<open>(r as any)[h]\<close>: the row's own field under the key \<open>h\<close>; what an object inherits
      from its prototype is not modelled\<close>
  "row_property r h =
     (if h = ''studentNo'' then of_opt (studentNo r)
      else if h = ''sin'' then of_opt (sin_field r)
      else if h = ''gov'' then of_opt (gov r)
      else if h = ''cert'' then of_opt (cert r)
      else if h = ''name'' then of_opt (name r)
      else if h = ''eosDate'' then of_opt (eosDate r)
      else if h = ''amount'' then amount r
      else (case map_of (extra r) h of None \<Rightarrow> Undefined | Some v \<Rightarrow> v))"

definition is_currency_column :: "string \<Rightarrow> bool" where
  \<comment> \<open>the test \<open>h.toUpperCase().includes("AMOUNT")\<close>\<close>
  "is_currency_column h = str_includes (toUpperCase h) ''AMOUNT''"

definition cell_value :: "ParsedRow \<Rightarrow> string \<Rightarrow> string" where
  \<comment> \<open>the value written to the cell of row \<open>r\<close> under the header \<open>h\<close>\<close>
  "cell_value r h =
     (let raw = (case map_of headerKeyMap (toUpperCase h) of
                   Some getter \<Rightarrow> getter r
                 | None \<Rightarrow> row_property r h)
      in if is_currency_column h then
           (let n = toNumber_makeExcel raw in
            if isFinite n then ''$'' @ fmtMoney n else asString raw)
         else asString raw)"













section \<open>The notions of the specification\<close>

definition mentions :: "string \<Rightarrow> string \<Rightarrow> bool" where
  \<comment> \<open>the line contains the keyword, case-insensitively: the keywords are in upper case,
      and so the line is compared in upper case\<close>
  "mentions line kw = (\<exists>u v. toUpperCase line = u @ kw @ v)"

definition header_like :: "string \<Rightarrow> bool" where
  \<comment> \<open>the line contains at least 3 of the 8 keywords\<close>
  "header_like line = (3 \<le> card {kw \<in> set header_tokens. mentions line kw})"



definition gov_of_line :: "string \<Rightarrow> string option option" where
  \<comment> \<open>the \<open>gov\<close> field of the row parsed from a line; the outer \<open>None\<close> says no row\<close>
  "gov_of_line line = map_option gov (parseRow line)"

definition plain_decimal :: "char \<Rightarrow> bool" where
  \<comment> \<open>a digit or the decimal point\<close>
  "plain_decimal c = (is_digit c \<or> c = CHR ''.'')"

section \<open>The languages of the matchers\<close>

text \<open>
  A matcher that only reads input has a language: the strings it can consume, each with
  the capture groups it sets on the way. The matcher of a pattern is related to its
  language by \<open>consuming\<close>: from any state it reaches exactly the states that lie one
  word of the language further.
\<close>

type_synonym lang = "(string \<times> (nat \<times> string) list) set"

definition adv :: "mstate \<Rightarrow> string \<Rightarrow> (nat \<times> string) list \<Rightarrow> mstate" where
  \<comment> \<open>the state after reading \<open>u\<close> and setting the groups \<open>cs\<close>\<close>
  "adv st u cs =
     st\<lparr>seen := rev u @ seen st, rest := drop (length u) (rest st), caps := cs @ caps st\<rparr>"

definition consuming :: "matcher \<Rightarrow> lang \<Rightarrow> bool" where
  "consuming r L =
     (\<forall>st. set (r st) = {adv st u cs | u cs. (u, cs) \<in> L \<and> prefix u (rest st)})"

definition Lrep :: "(char \<Rightarrow> bool) \<Rightarrow> nat \<Rightarrow> nat option \<Rightarrow> lang" where
  "Lrep P lo hi =
     {(u, []) | u. list_all P u \<and> lo \<le> length u
                   \<and> (case hi of None \<Rightarrow> True | Some h \<Rightarrow> length u \<le> h)}"

definition Lchr :: "char \<Rightarrow> lang" where
  "Lchr a = {([a], [])}"

definition Lseq :: "lang \<Rightarrow> lang \<Rightarrow> lang" where
  "Lseq L1 L2 = {(u1 @ u2, cs2 @ cs1) | u1 cs1 u2 cs2. (u1, cs1) \<in> L1 \<and> (u2, cs2) \<in> L2}"

definition Lgrp :: "nat \<Rightarrow> lang \<Rightarrow> lang" where
  "Lgrp i L = {(u, (i, u) # cs) | u cs. (u, cs) \<in> L}"

definition Lopt :: "lang \<Rightarrow> lang" where
  "Lopt L = L \<union> {([], [])}"

definition Leps :: lang where
  "Leps = {([], [])}"

definition Lseqs :: "lang list \<Rightarrow> lang" where
  "Lseqs Ls = foldr Lseq Ls Leps"

definition row_body :: "matcher list" where
  \<comment> \<open>the pattern of \<open>row_rx\<close> between \<open>^\<close> and \<open>$\<close>\<close>
  "row_body =
     [grp 1 (rep is_digit 3 None),
      rep is_space 1 None,
      grp 2 (seqs [rep is_digit 3 (Some 3), one (is_chr (CHR ''-'')),
                   rep is_digit 3 (Some 3), one (is_chr (CHR ''-'')),
                   rep is_digit 3 (Some 3)]),
      rep is_space 1 None,
      opt (grp 3 (rep is_upper 2 (Some 2))),
      rep is_space 0 None,
      grp 4 (rep is_digit 4 None),
      rep is_space 1 None,
      grp 5 (rep_lazy is_dot 1 None),
      rep is_space 1 None,
      grp 6 (seqs [rep is_digit 2 (Some 2), one (is_chr (CHR ''/'')),
                   rep is_digit 2 (Some 2), one (is_chr (CHR ''/'')),
                   rep is_digit 2 (Some 2)]),
      rep is_space 1 None,
      grp 7 (seqs [opt (one (is_chr (CHR ''$''))),
                   rep (\<lambda>c. is_digit c \<or> c = CHR '','') 1 None,
                   one (is_chr (CHR ''.'')),
                   rep is_digit 2 (Some 2)])]"

definition sin_language :: lang where
  "sin_language =
     Lseqs [Lrep is_digit 3 (Some 3), Lchr (CHR ''-''), Lrep is_digit 3 (Some 3),
            Lchr (CHR ''-''), Lrep is_digit 3 (Some 3)]"

definition date_language :: lang where
  "date_language =
     Lseqs [Lrep is_digit 2 (Some 2), Lchr (CHR ''/''), Lrep is_digit 2 (Some 2),
            Lchr (CHR ''/''), Lrep is_digit 2 (Some 2)]"

definition amount_language :: lang where
  "amount_language =
     Lseqs [Lopt (Lchr (CHR ''$'')), Lrep (\<lambda>c. is_digit c \<or> c = CHR '','') 1 None,
            Lchr (CHR ''.''), Lrep is_digit 2 (Some 2)]"

definition row_language :: lang where
  \<comment> \<open>the language of \<open>row_body\<close>, built like the pattern\<close>
  "row_language =
     Lseqs
      [Lgrp 1 (Lrep is_digit 3 None),
       Lrep is_space 1 None,
       Lgrp 2 sin_language,
       Lrep is_space 1 None,
       Lopt (Lgrp 3 (Lrep is_upper 2 (Some 2))),
       Lrep is_space 0 None,
       Lgrp 4 (Lrep is_digit 4 None),
       Lrep is_space 1 None,
       Lgrp 5 (Lrep is_dot 1 None),
       Lrep is_space 1 None,
       Lgrp 6 date_language,
       Lrep is_space 1 None,
       Lgrp 7 amount_language]"

section \<open>The row grammar, stated on strings\<close>

definition digits :: "string \<Rightarrow> bool" where
  "digits s = list_all is_digit s"

definition spaces :: "string \<Rightarrow> bool" where
  "spaces s = list_all is_space s"

definition is_sin :: "string \<Rightarrow> bool" where
  \<comment> \<open>the format ddd-ddd-ddd\<close>
  "is_sin s =
     (\<exists>a b c. s = a @ ''-'' @ b @ ''-'' @ c
        \<and> digits a \<and> length a = 3 \<and> digits b \<and> length b = 3 \<and> digits c \<and> length c = 3)"

definition is_date :: "string \<Rightarrow> bool" where
  \<comment> \<open>the format dd/mm/yy\<close>
  "is_date s =
     (\<exists>a b c. s = a @ ''/'' @ b @ ''/'' @ c
        \<and> digits a \<and> length a = 2 \<and> digits b \<and> length b = 2 \<and> digits c \<and> length c = 2)"

definition is_amount :: "string \<Rightarrow> bool" where
  \<comment> \<open>an optional \<open>$\<close>, a non-empty run of digits and commas, a point, two digits\<close>
  "is_amount s =
     (\<exists>d g c. s = d @ g @ ''.'' @ c
        \<and> (d = [] \<or> d = ''$'')
        \<and> g \<noteq> [] \<and> list_all (\<lambda>c. is_digit c \<or> c = CHR '','') g
        \<and> digits c \<and> length c = 2)"

definition is_gov :: "string option \<Rightarrow> bool" where
  \<comment> \<open>absent, or exactly two upper-case letters\<close>
  "is_gov g = (case g of None \<Rightarrow> True | Some x \<Rightarrow> list_all is_upper x \<and> length x = 2)"

definition gov_text :: "string option \<Rightarrow> string" where
  "gov_text g = (case g of None \<Rightarrow> [] | Some x \<Rightarrow> x)"

definition row_parse ::
  "string \<Rightarrow> string \<Rightarrow> string \<Rightarrow> string option \<Rightarrow> string \<Rightarrow> string \<Rightarrow> string \<Rightarrow> string \<Rightarrow> bool" where
  \<comment> \<open>the line is the seven fields in order, with white space between them (possibly
      none between \<open>gov\<close> and \<open>cert\<close>)\<close>
  "row_parse l sno sn g ce nm dt am =
     (\<exists>w1 w2 w3 w4 w5 w6.
        l = sno @ w1 @ sn @ w2 @ gov_text g @ w3 @ ce @ w4 @ nm @ w5 @ dt @ w6 @ am
        \<and> digits sno \<and> 3 \<le> length sno
        \<and> spaces w1 \<and> w1 \<noteq> []
        \<and> is_sin sn
        \<and> spaces w2 \<and> w2 \<noteq> []
        \<and> is_gov g
        \<and> spaces w3
        \<and> digits ce \<and> 4 \<le> length ce
        \<and> spaces w4 \<and> w4 \<noteq> []
        \<and> list_all is_dot nm \<and> nm \<noteq> []
        \<and> spaces w5 \<and> w5 \<noteq> []
        \<and> is_date dt
        \<and> spaces w6 \<and> w6 \<noteq> []
        \<and> is_amount am)"

definition row_grammar :: "string \<Rightarrow> bool" where
  \<comment> \<open>the line matches the grammar of a row from start to end\<close>
  "row_grammar l = (\<exists>sno sn g ce nm dt am. row_parse l sno sn g ce nm dt am)"

definition row_caps :: "string \<Rightarrow> string \<Rightarrow> string option \<Rightarrow> string \<Rightarrow> string \<Rightarrow> string \<Rightarrow> string \<Rightarrow> (nat \<times> string) list" where
  \<comment> \<open>the capture groups of a match with these fields\<close>
  "row_caps sno sn g ce nm dt am =
     [(7, am), (6, dt), (5, nm), (4, ce)]
     @ (case g of None \<Rightarrow> [] | Some x \<Rightarrow> [(3, x)])
     @ [(2, sn), (1, sno)]"

definition row_of :: "string \<Rightarrow> string \<Rightarrow> string option \<Rightarrow> string \<Rightarrow> string \<Rightarrow> string \<Rightarrow> string \<Rightarrow> ParsedRow" where
  \<comment> \<open>the row with these field values\<close>
  "row_of sno sn g ce nm dt am =
     \<lparr>studentNo = Some sno, sin_field = Some sn, gov = g, cert = Some ce, name = Some nm,
      eosDate = Some dt, amount = Str am, extra = []\<rparr>"

definition join_fields :: "string \<Rightarrow> string \<Rightarrow> string option \<Rightarrow> string \<Rightarrow> string \<Rightarrow> string \<Rightarrow> string \<Rightarrow> string" where
  \<comment> \<open>the fields that are present, joined with single spaces\<close>
  "join_fields sno sn g ce nm dt am =
     sno @ '' '' @ sn @ '' '' @ (case g of None \<Rightarrow> [] | Some x \<Rightarrow> x @ '' '')
     @ ce @ '' '' @ nm @ '' '' @ dt @ '' '' @ am"

fun single_spaced :: "string \<Rightarrow> bool" where
  \<comment> \<open>no two spaces side by side\<close>
  "single_spaced (a # b # s) = (\<not> (a = CHR 0x20 \<and> b = CHR 0x20) \<and> single_spaced (b # s))"
| "single_spaced s = True"

definition plain_name :: "string \<Rightarrow> bool" where
  \<comment> \<open>a name the normalizer leaves as it is: not empty, no line break, no tab or
      no-break space, no two spaces side by side, no white space at either end\<close>
  "plain_name nm =
     (nm \<noteq> [] \<and> list_all is_dot nm
      \<and> list_all (\<lambda>c. c \<noteq> CHR 0x09 \<and> c \<noteq> CHR 0xA0) nm
      \<and> single_spaced nm
      \<and> \<not> is_space (hd nm) \<and> \<not> is_space (last nm))"

definition valid_fields ::
  "string \<Rightarrow> string \<Rightarrow> string option \<Rightarrow> string \<Rightarrow> string \<Rightarrow> string \<Rightarrow> string \<Rightarrow> bool" where
  "valid_fields sno sn g ce nm dt am =
     (digits sno \<and> 3 \<le> length sno \<and> is_sin sn \<and> is_gov g \<and> digits ce \<and> 4 \<le> length ce
      \<and> plain_name nm \<and> is_date dt \<and> is_amount am)"

definition edge_clean :: "string \<Rightarrow> bool" where
  \<comment> \<open>a text the normalizer leaves as it is: not empty, no tab or no-break space, no two
      spaces side by side, no white space at either end\<close>
  "edge_clean s =
     (s \<noteq> [] \<and> list_all (\<lambda>c. c \<noteq> CHR 0x09 \<and> c \<noteq> CHR 0xA0) s \<and> single_spaced s
      \<and> \<not> is_space (hd s) \<and> \<not> is_space (last s))"

definition is_letter :: "char \<Rightarrow> bool" where
  "is_letter c = (is_upper c \<or> is_lower c)"

definition spec_fields ::
  "string \<Rightarrow> string \<Rightarrow> string option \<Rightarrow> string \<Rightarrow> string \<Rightarrow> string \<Rightarrow> string \<Rightarrow> bool" where
  \<comment> \<open>the valid field sets in the words of the specification: \<open>gov\<close> is exactly two
      letters when present, and the name is free text\<close>
  "spec_fields sno sn g ce nm dt am =
     (digits sno \<and> 3 \<le> length sno \<and> is_sin sn
      \<and> (case g of None \<Rightarrow> True | Some x \<Rightarrow> list_all is_letter x \<and> length x = 2)
      \<and> digits ce \<and> 4 \<le> length ce \<and> is_date dt \<and> is_amount am)"

section \<open>Sample inputs\<close>


definition row_with_amount :: "jsval \<Rightarrow> ParsedRow" where
  \<comment> \<open>a row that has an amount and nothing else\<close>
  "row_with_amount a =
     \<lparr>studentNo = None, sin_field = None, gov = None, cert = None, name = None,
      eosDate = None, amount = a, extra = []\<rparr>"

definition sample_lines :: "string list" where
  \<comment> \<open>cleaned lines with the header in second place\<close>
  "sample_lines = [''DISBURSEMENT REPORT'', ''Student No Sin Gov Cert'', ''000123'']"


definition sample_row_line :: string where
  "sample_row_line = ''000123 123-456-789 ON 45678 DOE JOHN 08/09/23 $2,205.00''"

definition sample_row :: ParsedRow where
  "sample_row =
     \<lparr>studentNo = Some ''000123'', sin_field = Some ''123-456-789'', gov = Some ''ON'',
      cert = Some ''45678'', name = Some ''DOE JOHN'', eosDate = Some ''08/09/23'',
      amount = Str ''$2,205.00'', extra = []\<rparr>"

definition sample_page_lines :: "string list" where
  \<comment> \<open>a title, a blank line, the header, a row, noise, the totals line, and a row
      after it\<close>
  "sample_page_lines =
     [''DISBURSEMENT REPORT'', [], ''STUDENT NO | SIN | GOV | CERT # | NAME'',
      sample_row_line, ''page 1 of 1'', ''TOTAL 1 $2,205.00'', sample_row_line]"

section \<open>Evaluation support\<close>

lemma overflow_bound_large: "(2::rat) ^ 64 \<le> 2 ^ 1024 - 2 ^ 970"
proof -
  have a: "(2::rat) ^ 970 \<le> 2 ^ 1023" by (rule power_increasing) simp_all
  have b: "(2::rat) ^ 64 \<le> 2 ^ 1023" by (rule power_increasing) simp_all
  have c: "(2::rat) ^ 1024 = 2 * 2 ^ 1023" by (simp only: power_Suc [symmetric]) simp
  show ?thesis using a b c by linarith
qed

lemma as_double_code [code]:
  \<comment> \<open>the evaluation of \<open>as_double\<close> decides the common case on a small bound\<close>
  "as_double q =
     (if \<bar>q\<bar> < 18446744073709551616 then Fin q
      else if \<bar>q\<bar> < 2 ^ 1024 - 2 ^ 970 then Fin q else if 0 < q then PosInf else NegInf)"
proof -
  have "(18446744073709551616::rat) = 2 ^ 64" by simp
  then show ?thesis using overflow_bound_large unfolding as_double_def by auto
qed

section \<open>The totals detector on the example line\<close>

text \<open>
  Claim C1. On the line \<open>TOTAL 12 $26,460.00\<close> the totals detector finds the amount
  26460.00, and as count the last run of one to four digits between word boundaries that
  no other such run follows. In this line that run is the \<open>00\<close> of the cents, so the
  count returned is 0 and not the 12 the line states.
\<close>

theorem parseTotals_example:
  "parseTotals ''TOTAL 12 $26,460.00''
     = Some \<lparr>count = Some (Fin 0), total_amount = Num (Fin 26460)\<rparr>"
  by code_simp

section \<open>Sheet names\<close>


section \<open>Currency cells\<close>

text \<open>
  Claim C3. A cell under a header that contains \<open>AMOUNT\<close> shows the coerced number as
  money. The coercion turns a text that is no number into 0, so the branch that would
  show the raw text is never taken: the amount \<open>N/A\<close> is shown as \<open>$0.00\<close>.
\<close>

theorem currency_cell_unparseable:
  "cell_value (row_with_amount (Str ''N/A'')) ''AMOUNT'' = ''$0.00''"
  by code_simp

section \<open>The header detector\<close>

lemma str_includes_iff: "str_includes s t \<longleftrightarrow> (\<exists>u v. s = u @ t @ v)"
proof (induction s)
  case Nil
  show ?case by auto
next
  case (Cons c cs)
  show ?case
  proof
    assume "str_includes (c # cs) t"
    then consider "prefix t (c # cs)" | "str_includes cs t" by auto
    then show "\<exists>u v. c # cs = u @ t @ v"
    proof cases
      case 1
      then obtain v where "c # cs = t @ v" by (auto simp: prefix_def)
      then have "c # cs = [] @ t @ v" by simp
      then show ?thesis by blast
    next
      case 2
      with Cons obtain u v where "cs = u @ t @ v" by auto
      then have "c # cs = (c # u) @ t @ v" by simp
      then show ?thesis by blast
    qed
  next
    assume "\<exists>u v. c # cs = u @ t @ v"
    then obtain u v where e: "c # cs = u @ t @ v" by auto
    show "str_includes (c # cs) t"
    proof (cases u)
      case Nil
      with e have "prefix t (c # cs)" by (auto simp: prefix_def)
      then show ?thesis by simp
    next
      case (Cons a u')
      with e have "cs = u' @ t @ v" by simp
      with Cons.IH have "str_includes cs t" by blast
      then show ?thesis by simp
    qed
  qed
qed

lemma count_foldl: "foldl (\<lambda>n t. if P t then n + 1 else n) (k::nat) ts = k + length (filter P ts)"
  by (induction ts arbitrary: k) auto

lemma header_tokens_distinct: "distinct header_tokens"
  by (simp add: header_tokens_def)

lemma looksLikeHeader_iff: "looksLikeHeader line \<longleftrightarrow> header_like line"
proof -
  have "card {kw \<in> set header_tokens. mentions line kw}
        = length (filter (mentions line) header_tokens)"
    using header_tokens_distinct by (simp add: distinct_length_filter Int_def conj_commute)
  moreover have "filter (mentions line) header_tokens
        = filter (str_includes (toUpperCase line)) header_tokens"
    by (rule filter_cong) (simp_all add: mentions_def str_includes_iff)
  ultimately show ?thesis
    by (simp add: looksLikeHeader_def header_like_def count_foldl Let_def)
qed

lemma findIndex_Some:
  "findIndex P xs = Some i \<Longrightarrow> i < length xs \<and> P (xs ! i) \<and> (\<forall>j<i. \<not> P (xs ! j))"
proof (induction xs arbitrary: i)
  case Nil
  then show ?case by simp
next
  case (Cons x xs)
  show ?case
  proof (cases "P x")
    case True
    with Cons.prems show ?thesis by simp
  next
    case False
    with Cons.prems obtain k where k: "findIndex P xs = Some k" "i = Suc k"
      by (auto split: option.splits)
    from Cons.IH [OF k(1)] False k(2) show ?thesis
      by (auto simp: less_Suc_eq_0_disj)
  qed
qed

lemma findIndex_None: "findIndex P xs = None \<longleftrightarrow> (\<forall>i<length xs. \<not> P (xs ! i))"
proof (induction xs)
  case Nil
  show ?case by simp
next
  case (Cons x xs)
  show ?case
    using Cons.IH by (auto simp: less_Suc_eq_0_disj split: option.splits)
qed

text \<open>
  Claim C6. On any sequence of cleaned lines the header index is the index of the first
  line that contains, case-insensitively, at least 3 of the 8 keywords; when there is
  no such line it is \<open>min 4 n\<close> for \<open>n\<close> lines. The header lines of the page are the
  cleaned lines before that index, unchanged.
\<close>

theorem header_detector:
  "((\<exists>i<length clean. header_like (clean ! i)) \<longrightarrow>
      header_index clean < length clean
      \<and> header_like (clean ! header_index clean)
      \<and> (\<forall>j<header_index clean. \<not> header_like (clean ! j)))
   \<and> ((\<forall>i<length clean. \<not> header_like (clean ! i)) \<longrightarrow>
      header_index clean = min 4 (length clean))
   \<and> headerLines (parseFromLines lines pageIndex)
       = Some (take (header_index (clean_lines lines)) (clean_lines lines))"
proof (intro conjI impI)
  assume ex: "\<exists>i<length clean. header_like (clean ! i)"
  then have "findIndex looksLikeHeader clean \<noteq> None"
    by (simp add: findIndex_None looksLikeHeader_iff)
  then obtain k where k: "findIndex looksLikeHeader clean = Some k" by auto
  then have h: "header_index clean = k" by (simp add: header_index_def)
  from findIndex_Some [OF k] h
  show "header_index clean < length clean"
    and "header_like (clean ! header_index clean)"
    and "\<forall>j<header_index clean. \<not> header_like (clean ! j)"
    by (simp_all add: looksLikeHeader_iff)
next
  assume "\<forall>i<length clean. \<not> header_like (clean ! i)"
  then have "findIndex looksLikeHeader clean = None"
    by (simp add: findIndex_None looksLikeHeader_iff)
  then show "header_index clean = min 4 (length clean)" by (simp add: header_index_def)
next
  show "headerLines (parseFromLines lines pageIndex)
       = Some (take (header_index (clean_lines lines)) (clean_lines lines))"
    by (simp add: parseFromLines_def Let_def split: prod.splits)
qed

theorem header_detector_witness:
  "header_like (sample_lines ! 1)
   \<and> header_index sample_lines = 1
   \<and> \<not> header_like (sample_lines ! 0)
   \<and> header_index [''one'', ''two''] = 2"
proof -
  have a: "looksLikeHeader ''Student No Sin Gov Cert''" by code_simp
  have b: "\<not> looksLikeHeader ''DISBURSEMENT REPORT''" by code_simp
  have c: "\<not> looksLikeHeader ''one''" "\<not> looksLikeHeader ''two''" by code_simp+
  have ex: "\<exists>i<length sample_lines. header_like (sample_lines ! i)"
    using a by (auto simp: sample_lines_def looksLikeHeader_iff [symmetric] intro: exI [of _ 1])
  have h1: "header_index sample_lines = 1"
    using a b by (simp add: header_index_def sample_lines_def)
  have none: "\<forall>i<length [''one'', ''two'']. \<not> header_like ([''one'', ''two''] ! i)"
    using c by (auto simp: less_Suc_eq_0_disj looksLikeHeader_iff [symmetric])
  from header_detector [of sample_lines "[]" 0] ex h1
  have "header_like (sample_lines ! 1) \<and> \<not> header_like (sample_lines ! 0)" by auto
  moreover from header_detector [of "[''one'', ''two'']" "[]" 0] none
  have "header_index [''one'', ''two''] = 2" by simp
  ultimately show ?thesis using h1 by simp
qed

section \<open>The page assembler\<close>

lemma scan_lines_eq:
  "scan_lines ls rs =
     (rs @ List.map_filter parseRow (takeWhile (\<lambda>l. parseTotals l = None) ls),
      (case dropWhile (\<lambda>l. parseTotals l = None) ls of [] \<Rightarrow> None | l # _ \<Rightarrow> parseTotals l))"
proof (induction ls arbitrary: rs)
  case Nil
  show ?case by (simp add: List.map_filter_simps)
next
  case (Cons l ls)
  show ?case
  proof (cases "parseTotals l")
    case None
    then show ?thesis
      by (cases "parseRow l") (simp_all add: Cons.IH List.map_filter_simps)
  next
    case (Some t)
    then show ?thesis by (simp add: List.map_filter_simps)
  qed
qed

text \<open>
  Claim C7. The rows of a page are the parses of the cleaned lines after the header
  index that parse as rows, in line order, up to the first line that the totals detector
  recognizes; that line gives the totals of the page (there are none when no line is
  recognized). The totals detector is asked first: a line it recognizes ends the scan
  whatever the row parser would say, and no line from there on gives a row.
\<close>

theorem page_rows_and_totals:
  "rows (parseFromLines lines pageIndex)
     = List.map_filter parseRow
         (takeWhile (\<lambda>l. parseTotals l = None)
            (drop (header_index (clean_lines lines) + 1) (clean_lines lines)))
   \<and> totals (parseFromLines lines pageIndex)
     = (case dropWhile (\<lambda>l. parseTotals l = None)
               (drop (header_index (clean_lines lines) + 1) (clean_lines lines)) of
          [] \<Rightarrow> None
        | l # _ \<Rightarrow> parseTotals l)
   \<and> (\<forall>l ls rs t. parseTotals l = Some t \<longrightarrow> scan_lines (l # ls) rs = (rs, Some t))"
  by (simp add: parseFromLines_def Let_def scan_lines_eq split: prod.splits)

theorem page_rows_and_totals_witness:
  "parseTotals ''TOTAL 1 $2,205.00'' = Some \<lparr>count = Some (Fin 0), total_amount = Num (Fin 2205)\<rparr>
   \<and> scan_lines [''TOTAL 1 $2,205.00'', sample_row_line] []
       = ([], Some \<lparr>count = Some (Fin 0), total_amount = Num (Fin 2205)\<rparr>)
   \<and> rows (parseFromLines sample_page_lines 1) = [sample_row]
   \<and> totals (parseFromLines sample_page_lines 1)
       = Some \<lparr>count = Some (Fin 0), total_amount = Num (Fin 2205)\<rparr>"
proof -
  have t: "parseTotals ''TOTAL 1 $2,205.00''
             = Some \<lparr>count = Some (Fin 0), total_amount = Num (Fin 2205)\<rparr>"
    by code_simp
  have body: "drop (header_index (clean_lines sample_page_lines) + 1)
                (clean_lines sample_page_lines)
              = [sample_row_line, ''page 1 of 1'', ''TOTAL 1 $2,205.00'', sample_row_line]"
    by code_simp
  have n1: "parseTotals sample_row_line = None" by code_simp
  have n2: "parseTotals ''page 1 of 1'' = None" by code_simp
  have r1: "parseRow sample_row_line = Some sample_row" by code_simp
  have r2: "parseRow ''page 1 of 1'' = None" by code_simp
  note inst = page_rows_and_totals [of sample_page_lines 1]
  from inst t have "scan_lines [''TOTAL 1 $2,205.00'', sample_row_line] []
       = ([], Some \<lparr>count = Some (Fin 0), total_amount = Num (Fin 2205)\<rparr>)"
    by blast
  moreover from inst have "rows (parseFromLines sample_page_lines 1) = [sample_row]"
    unfolding body by (simp add: t n1 n2 r1 r2 List.map_filter_simps)
  moreover from inst have "totals (parseFromLines sample_page_lines 1)
       = Some \<lparr>count = Some (Fin 0), total_amount = Num (Fin 2205)\<rparr>"
    unfolding body by (simp add: t n1 n2)
  ultimately show ?thesis using t by simp
qed

lemma clean_lines_nonempty: "l \<in> set (clean_lines lines) \<Longrightarrow> l \<noteq> []"
  by (simp add: clean_lines_def)

lemma splitColumns_length: "3 \<le> length (splitColumns h)"
  by (simp add: splitColumns_def Let_def canonical_columns_def)

lemma splitColumns_cases:
  "splitColumns h = canonical_columns
   \<or> splitColumns h = filter (\<lambda>s. s \<noteq> [])
        (map trim (str_split (replace_class (is_chr (CHR ''|'')) ''  '' h) column_separator))"
  by (simp add: splitColumns_def Let_def)

text \<open>
  Claim C10. Whatever the text of a page and its index, the parsed page has a sheet name
  that is present and not empty, and at least 3 column labels. The workbook assembler
  therefore takes its headers from the page: the branch that falls back to the default
  headers is not taken for a page that comes from this parser.
\<close>

theorem parsed_page_shape:
  "(\<exists>s. sheetName (parseDisbursementPageFromText rawText pageIndex) = Some s \<and> s \<noteq> [])
   \<and> (\<exists>cs. columns (parseDisbursementPageFromText rawText pageIndex) = Some cs
            \<and> 3 \<le> length cs
            \<and> page_headers (parseDisbursementPageFromText rawText pageIndex) = cs)
   \<and> usesParserColumns (parseDisbursementPageFromText rawText pageIndex)"
proof -
  let ?clean = "clean_lines (str_split rawText line_break)"
  let ?h = "header_index ?clean"
  let ?page = "parseDisbursementPageFromText rawText pageIndex"
  have sn: "sheetName ?page
      = Some (case take ?h ?clean of
                [] \<Rightarrow> ''Page '' @ show_int pageIndex
              | h # _ \<Rightarrow> if h \<noteq> [] then h else ''Page '' @ show_int pageIndex)"
    by (simp add: parseDisbursementPageFromText_def parseFromLines_def Let_def
          split: prod.splits)
  have name: "\<exists>s. sheetName ?page = Some s \<and> s \<noteq> []"
  proof (cases "take ?h ?clean")
    case Nil
    show ?thesis unfolding sn Nil by simp
  next
    case (Cons a as)
    then have "a \<in> set ?clean" by (metis in_set_takeD list.set_intros(1))
    then have "a \<noteq> []" by (rule clean_lines_nonempty)
    then show ?thesis unfolding sn Cons by simp
  qed
  have cols: "columns ?page
      = Some (splitColumns (if ?h < length ?clean then ?clean ! ?h else []))"
    by (simp add: parseDisbursementPageFromText_def parseFromLines_def Let_def
          split: prod.splits)
  have len: "3 \<le> length (splitColumns (if ?h < length ?clean then ?clean ! ?h else []))"
    by (rule splitColumns_length)
  then have ne: "splitColumns (if ?h < length ?clean then ?clean ! ?h else []) \<noteq> []"
    by auto
  have uses: "usesParserColumns ?page"
    using ne by (simp add: usesParserColumns_def cols)
  have hdrs: "page_headers ?page
      = splitColumns (if ?h < length ?clean then ?clean ! ?h else [])"
    using uses by (simp add: page_headers_def cols asString_def)
  show ?thesis using name cols len uses hdrs by simp
qed

theorem parsed_page_shape_witness:
  "sheetName (parseDisbursementPageFromText [] 3) = Some ''Page 3''
   \<and> columns (parseDisbursementPageFromText [] 3) = Some canonical_columns
   \<and> usesParserColumns (parseDisbursementPageFromText [] 3)"
proof -
  have a: "sheetName (parseDisbursementPageFromText [] 3) = Some ''Page 3''" by code_simp
  have b: "columns (parseDisbursementPageFromText [] 3) = Some canonical_columns" by code_simp
  from parsed_page_shape [of "[]" 3] a b show ?thesis by simp
qed

section \<open>The totals row\<close>




lemma toNumber_makeExcel_finite: "isFinite (toNumber_makeExcel v)"
  by (cases v) (auto simp: toNumber_makeExcel_def isFinite_def Let_def split: number.splits)






section \<open>Matchers and their languages\<close>

lemma seqs_Nil: "seqs [] = eps" by (simp add: seqs_def)
lemma seqs_Cons: "seqs (r # rs) = seq r (seqs rs)" by (simp add: seqs_def)
lemma Lseqs_Nil: "Lseqs [] = Leps" by (simp add: Lseqs_def)
lemma Lseqs_Cons: "Lseqs (L # Ls) = Lseq L (Lseqs Ls)" by (simp add: Lseqs_def)

lemma adv_adv: "adv (adv st u1 cs1) u2 cs2 = adv st (u1 @ u2) (cs2 @ cs1)"
  by (simp add: adv_def add.commute)

lemma rest_adv: "rest (adv st u cs) = drop (length u) (rest st)"
  by (simp add: adv_def)

lemma prefix_append_drop:
  "prefix (u1 @ u2) s \<longleftrightarrow> prefix u1 s \<and> prefix u2 (drop (length u1) s)"
  by (auto simp: prefix_def)

lemma take_run_all: "k \<le> length (takeWhile P s) \<Longrightarrow> list_all P (take k s)"
proof (induction s arbitrary: k)
  case Nil
  then show ?case by simp
next
  case (Cons c s)
  then show ?case by (cases k) (auto split: if_splits)
qed

lemma prefix_run_length: "prefix u s \<Longrightarrow> list_all P u \<Longrightarrow> length u \<le> length (takeWhile P s)"
proof (induction u arbitrary: s)
  case Nil
  then show ?case by simp
next
  case (Cons c u)
  then show ?case by (cases s) auto
qed

lemma advance_adv: "k \<le> length (rest st) \<Longrightarrow> advance st k = adv st (take k (rest st)) []"
  by (simp add: advance_def adv_def min_def)

lemma rep_states:
  "advance st ` {k. lo \<le> k \<and> k \<le> length (takeWhile P (rest st)) \<and> (case hi of None \<Rightarrow> True | Some h \<Rightarrow> k \<le> h)}
   = {adv st u cs | u cs. (u, cs) \<in> Lrep P lo hi \<and> prefix u (rest st)}"
  (is "?A = ?B")
proof (intro set_eqI iffI)
  fix m assume "m \<in> ?A"
  then obtain k where k: "m = advance st k" "lo \<le> k" "k \<le> length (takeWhile P (rest st))"
    "case hi of None \<Rightarrow> True | Some h \<Rightarrow> k \<le> h" by auto
  have le: "k \<le> length (rest st)"
    using k(3) length_takeWhile_le [of P "rest st"] by linarith
  let ?u = "take k (rest st)"
  have "m = adv st ?u []" using k(1) le by (simp add: advance_adv)
  moreover have "(?u, []) \<in> Lrep P lo hi"
    using k le take_run_all [OF k(3)] by (auto simp: Lrep_def min_def split: option.splits)
  moreover have "prefix ?u (rest st)" by (rule take_is_prefix)
  ultimately show "m \<in> ?B" by blast
next
  fix m assume "m \<in> ?B"
  then obtain u where u: "m = adv st u []" "list_all P u" "lo \<le> length u"
    "case hi of None \<Rightarrow> True | Some h \<Rightarrow> length u \<le> h" "prefix u (rest st)"
    by (auto simp: Lrep_def)
  have tk: "take (length u) (rest st) = u" using u(5) by (auto simp: prefix_def)
  have "length u \<le> length (rest st)" using u(5) by (rule prefix_length_le)
  then have "m = advance st (length u)" using u(1) tk by (simp add: advance_adv)
  moreover have "length u \<le> length (takeWhile P (rest st))"
    using u(5) u(2) by (rule prefix_run_length)
  ultimately show "m \<in> ?A" using u(3,4) by blast
qed

lemma range_set:
  "set [lo ..< Suc (case hi of None \<Rightarrow> n | Some h \<Rightarrow> min h n)]
   = {k. lo \<le> k \<and> k \<le> n \<and> (case hi of None \<Rightarrow> True | Some h \<Rightarrow> k \<le> h)}"
  by (auto split: option.splits)

lemma consuming_rep: "consuming (rep P lo hi) (Lrep P lo hi)"
  unfolding consuming_def
proof
  fix st
  have "set (rep P lo hi st)
        = advance st ` set [lo ..< Suc (case hi of None \<Rightarrow> length (takeWhile P (rest st))
                                        | Some h \<Rightarrow> min h (length (takeWhile P (rest st))))]"
    by (simp add: rep_def Let_def)
  then show "set (rep P lo hi st) = {adv st u cs | u cs. (u, cs) \<in> Lrep P lo hi \<and> prefix u (rest st)}"
    by (simp only: range_set rep_states)
qed

lemma consuming_rep_lazy: "consuming (rep_lazy P lo hi) (Lrep P lo hi)"
  unfolding consuming_def
proof
  fix st
  have "set (rep_lazy P lo hi st)
        = advance st ` set [lo ..< Suc (case hi of None \<Rightarrow> length (takeWhile P (rest st))
                                        | Some h \<Rightarrow> min h (length (takeWhile P (rest st))))]"
    by (simp add: rep_lazy_def Let_def)
  then show "set (rep_lazy P lo hi st) = {adv st u cs | u cs. (u, cs) \<in> Lrep P lo hi \<and> prefix u (rest st)}"
    by (simp only: range_set rep_states)
qed

lemma consuming_one: "consuming (one P) (Lrep P 1 (Some 1))"
  by (simp add: one_def consuming_rep)

lemma consuming_eps: "consuming eps Leps"
  by (auto simp: consuming_def eps_def Leps_def adv_def)

lemma consuming_seq:
  assumes "consuming r1 L1" and "consuming r2 L2"
  shows "consuming (seq r1 r2) (Lseq L1 L2)"
  unfolding consuming_def
proof (intro allI set_eqI iffI)
  fix st m
  assume "m \<in> set (seq r1 r2 st)"
  then obtain m1 where m1: "m1 \<in> set (r1 st)" "m \<in> set (r2 m1)" by (auto simp: seq_def)
  from m1(1) assms(1) obtain u1 cs1 where 1: "m1 = adv st u1 cs1" "(u1, cs1) \<in> L1" "prefix u1 (rest st)"
    by (auto simp: consuming_def)
  from m1(2) assms(2) obtain u2 cs2 where 2: "m = adv m1 u2 cs2" "(u2, cs2) \<in> L2" "prefix u2 (rest m1)"
    by (auto simp: consuming_def)
  have "m = adv st (u1 @ u2) (cs2 @ cs1)" using 1(1) 2(1) by (simp add: adv_adv)
  moreover have "(u1 @ u2, cs2 @ cs1) \<in> Lseq L1 L2" using 1(2) 2(2) by (auto simp: Lseq_def)
  moreover have "prefix (u1 @ u2) (rest st)"
    using 1(1,3) 2(3) by (simp add: prefix_append_drop rest_adv)
  ultimately show "m \<in> {adv st u cs | u cs. (u, cs) \<in> Lseq L1 L2 \<and> prefix u (rest st)}" by blast
next
  fix st m
  assume "m \<in> {adv st u cs | u cs. (u, cs) \<in> Lseq L1 L2 \<and> prefix u (rest st)}"
  then obtain u1 cs1 u2 cs2 where m: "m = adv st (u1 @ u2) (cs2 @ cs1)"
    "(u1, cs1) \<in> L1" "(u2, cs2) \<in> L2" "prefix (u1 @ u2) (rest st)"
    by (auto simp: Lseq_def)
  let ?m1 = "adv st u1 cs1"
  have p: "prefix u1 (rest st)" "prefix u2 (rest ?m1)"
    using m(4) by (simp_all add: prefix_append_drop rest_adv)
  have "?m1 \<in> set (r1 st)" using assms(1) m(2) p(1) by (auto simp: consuming_def)
  moreover have "m \<in> set (r2 ?m1)"
    using assms(2) m(1,3) p(2) by (auto simp: consuming_def adv_adv)
  ultimately show "m \<in> set (seq r1 r2 st)" by (auto simp: seq_def)
qed

lemma consuming_opt:
  assumes "consuming r L"
  shows "consuming (opt r) (Lopt L)"
  unfolding consuming_def
proof (intro allI set_eqI iffI)
  fix st m
  assume "m \<in> set (opt r st)"
  then consider "m \<in> set (r st)" | "m = st" by (auto simp: opt_def)
  then show "m \<in> {adv st u cs | u cs. (u, cs) \<in> Lopt L \<and> prefix u (rest st)}"
  proof cases
    case 1
    with assms show ?thesis by (auto simp: consuming_def Lopt_def)
  next
    case 2
    then have "m = adv st [] []" by (simp add: adv_def)
    moreover have "([], []) \<in> Lopt L" by (simp add: Lopt_def)
    moreover have "prefix [] (rest st)" by simp
    ultimately show ?thesis by blast
  qed
next
  fix st m
  assume "m \<in> {adv st u cs | u cs. (u, cs) \<in> Lopt L \<and> prefix u (rest st)}"
  then obtain u cs where u: "m = adv st u cs" "(u, cs) \<in> Lopt L" "prefix u (rest st)" by blast
  from u(2) consider "(u, cs) \<in> L" | "u = []" "cs = []" by (auto simp: Lopt_def)
  then show "m \<in> set (opt r st)"
  proof cases
    case 1
    with assms u(1,3) have "m \<in> set (r st)" by (auto simp: consuming_def)
    then show ?thesis by (simp add: opt_def)
  next
    case 2
    with u(1) have "m = st" by (simp add: adv_def)
    then show ?thesis by (simp add: opt_def)
  qed
qed

lemma consuming_grp:
  assumes "consuming r L"
  shows "consuming (grp i r) (Lgrp i L)"
  unfolding consuming_def
proof (intro allI set_eqI iffI)
  fix st m
  assume "m \<in> set (grp i r st)"
  then obtain m1 where m1: "m1 \<in> set (r st)"
    "m = m1\<lparr>caps := (i, take (length (rest st) - length (rest m1)) (rest st)) # caps m1\<rparr>"
    by (auto simp: grp_def)
  from m1(1) assms obtain u cs where u: "m1 = adv st u cs" "(u, cs) \<in> L" "prefix u (rest st)"
    by (auto simp: consuming_def)
  have len: "length u \<le> length (rest st)" using u(3) by (rule prefix_length_le)
  have "take (length (rest st) - length (rest m1)) (rest st) = u"
    using u(1,3) len by (auto simp: rest_adv prefix_def)
  then have "m = adv st u ((i, u) # cs)" using m1(2) u(1) by (simp add: adv_def)
  then show "m \<in> {adv st u cs | u cs. (u, cs) \<in> Lgrp i L \<and> prefix u (rest st)}"
    using u(2,3) by (auto simp: Lgrp_def)
next
  fix st m
  assume "m \<in> {adv st u cs | u cs. (u, cs) \<in> Lgrp i L \<and> prefix u (rest st)}"
  then obtain u cs where u: "m = adv st u ((i, u) # cs)" "(u, cs) \<in> L" "prefix u (rest st)"
    by (auto simp: Lgrp_def)
  let ?m1 = "adv st u cs"
  have len: "length u \<le> length (rest st)" using u(3) by (rule prefix_length_le)
  have in1: "?m1 \<in> set (r st)" using assms u(2,3) by (auto simp: consuming_def)
  have "take (length (rest st) - length (rest ?m1)) (rest st) = u"
    using u(3) len by (auto simp: rest_adv prefix_def)
  then have "m = ?m1\<lparr>caps := (i, take (length (rest st) - length (rest ?m1)) (rest st)) # caps ?m1\<rparr>"
    using u(1) by (simp add: adv_def)
  with in1 show "m \<in> set (grp i r st)" by (auto simp: grp_def)
qed

lemma consuming_seqs_Nil: "consuming (seqs []) (Lseqs [])"
  by (simp add: seqs_Nil Lseqs_Nil consuming_eps)

lemma consuming_seqs_Cons:
  "consuming r L \<Longrightarrow> consuming (seqs rs) (Lseqs Ls) \<Longrightarrow> consuming (seqs (r # rs)) (Lseqs (L # Ls))"
  by (simp add: seqs_Cons Lseqs_Cons consuming_seq)

lemma consuming_chr: "consuming (one (is_chr a)) (Lchr a)"
proof -
  have "list_all (is_chr a) u \<and> 1 \<le> length u \<and> length u \<le> 1 \<longleftrightarrow> u = [a]" for u
    by (cases u) (auto simp: is_chr_def)
  then have "Lrep (is_chr a) 1 (Some 1) = Lchr a"
    by (auto simp: Lrep_def Lchr_def)
  with consuming_one [of "is_chr a"] show ?thesis by simp
qed

lemmas consuming_intros =
  consuming_seqs_Cons consuming_seqs_Nil consuming_rep consuming_rep_lazy consuming_chr
  consuming_opt consuming_grp

section \<open>The language of the row pattern\<close>

lemma consuming_row_body: "consuming (seqs row_body) row_language"
  unfolding row_body_def row_language_def sin_language_def date_language_def
    amount_language_def
  by (intro consuming_intros)

lemma mem_Lrep:
  "(u, cs) \<in> Lrep P lo hi \<longleftrightarrow>
     cs = [] \<and> list_all P u \<and> lo \<le> length u \<and> (case hi of None \<Rightarrow> True | Some h \<Rightarrow> length u \<le> h)"
  by (auto simp: Lrep_def)

lemma mem_Lseq:
  "(u, cs) \<in> Lseq L1 L2 \<longleftrightarrow>
     (\<exists>u1 cs1 u2 cs2. u = u1 @ u2 \<and> cs = cs2 @ cs1 \<and> (u1, cs1) \<in> L1 \<and> (u2, cs2) \<in> L2)"
  by (auto simp: Lseq_def)

lemma mem_Lgrp: "(u, cs) \<in> Lgrp i L \<longleftrightarrow> (\<exists>cs'. cs = (i, u) # cs' \<and> (u, cs') \<in> L)"
  by (auto simp: Lgrp_def)

lemma mem_Leps: "(u, cs) \<in> Leps \<longleftrightarrow> u = [] \<and> cs = []"
  by (auto simp: Leps_def)

lemma mem_Lseq_rep:
  "(u, cs) \<in> Lseq (Lrep P lo hi) L \<longleftrightarrow>
     (\<exists>u1 u2. u = u1 @ u2 \<and> list_all P u1 \<and> lo \<le> length u1
        \<and> (case hi of None \<Rightarrow> True | Some h \<Rightarrow> length u1 \<le> h) \<and> (u2, cs) \<in> L)"
proof
  assume "(u, cs) \<in> Lseq (Lrep P lo hi) L"
  then obtain u1 cs1 u2 cs2 where "u = u1 @ u2" "cs = cs2 @ cs1" "(u1, cs1) \<in> Lrep P lo hi"
    "(u2, cs2) \<in> L" by (auto simp: mem_Lseq)
  then show "\<exists>u1 u2. u = u1 @ u2 \<and> list_all P u1 \<and> lo \<le> length u1
        \<and> (case hi of None \<Rightarrow> True | Some h \<Rightarrow> length u1 \<le> h) \<and> (u2, cs) \<in> L"
    by (auto simp: mem_Lrep)
next
  assume "\<exists>u1 u2. u = u1 @ u2 \<and> list_all P u1 \<and> lo \<le> length u1
        \<and> (case hi of None \<Rightarrow> True | Some h \<Rightarrow> length u1 \<le> h) \<and> (u2, cs) \<in> L"
  then obtain u1 u2 where a: "u = u1 @ u2" "(u1, []) \<in> Lrep P lo hi" "(u2, cs) \<in> L"
    by (auto simp: mem_Lrep)
  have "cs = cs @ []" by simp
  with a show "(u, cs) \<in> Lseq (Lrep P lo hi) L" unfolding mem_Lseq by blast
qed

lemma mem_Lseq_chr:
  "(u, cs) \<in> Lseq (Lchr a) L \<longleftrightarrow> (\<exists>u2. u = a # u2 \<and> (u2, cs) \<in> L)"
proof
  assume "(u, cs) \<in> Lseq (Lchr a) L"
  then show "\<exists>u2. u = a # u2 \<and> (u2, cs) \<in> L" unfolding mem_Lseq Lchr_def by auto
next
  assume "\<exists>u2. u = a # u2 \<and> (u2, cs) \<in> L"
  then obtain u2 where a: "u = [a] @ u2" "(u2, cs) \<in> L" by auto
  have "cs = cs @ []" "([a], []) \<in> Lchr a" by (simp_all add: Lchr_def)
  with a show "(u, cs) \<in> Lseq (Lchr a) L" unfolding mem_Lseq by blast
qed

lemma mem_Lseq_grp:
  "(u, cs) \<in> Lseq (Lgrp i L1) L2 \<longleftrightarrow>
     (\<exists>u1 cs1 u2 cs2. u = u1 @ u2 \<and> cs = cs2 @ (i, u1) # cs1 \<and> (u1, cs1) \<in> L1 \<and> (u2, cs2) \<in> L2)"
  unfolding mem_Lseq mem_Lgrp by blast

lemma mem_Lseq_opt:
  "(u, cs) \<in> Lseq (Lopt L1) L2 \<longleftrightarrow> (u, cs) \<in> Lseq L1 L2 \<or> (u, cs) \<in> L2"
proof
  assume "(u, cs) \<in> Lseq (Lopt L1) L2"
  then obtain u1 cs1 u2 cs2 where a: "u = u1 @ u2" "cs = cs2 @ cs1" "(u1, cs1) \<in> Lopt L1"
    "(u2, cs2) \<in> L2" unfolding mem_Lseq by blast
  from a(3) consider "(u1, cs1) \<in> L1" | "u1 = []" "cs1 = []" by (auto simp: Lopt_def)
  then show "(u, cs) \<in> Lseq L1 L2 \<or> (u, cs) \<in> L2"
  proof cases
    case 1
    with a show ?thesis unfolding mem_Lseq by blast
  next
    case 2
    with a show ?thesis by simp
  qed
next
  assume "(u, cs) \<in> Lseq L1 L2 \<or> (u, cs) \<in> L2"
  then show "(u, cs) \<in> Lseq (Lopt L1) L2"
  proof
    assume "(u, cs) \<in> Lseq L1 L2"
    then show ?thesis unfolding mem_Lseq Lopt_def by blast
  next
    assume a: "(u, cs) \<in> L2"
    have "u = [] @ u" "cs = cs @ []" "([], []) \<in> Lopt L1" by (simp_all add: Lopt_def)
    with a show ?thesis unfolding mem_Lseq by blast
  qed
qed

lemma Lseqs_NilI: "([], []) \<in> Lseqs []"
  by (simp add: Lseqs_Nil Leps_def)

lemma peel_Nil: "(u, cs) \<in> Lseqs [] \<longleftrightarrow> u = [] \<and> cs = []"
  by (simp add: Lseqs_Nil mem_Leps)

lemma peel_rep:
  "(u, cs) \<in> Lseqs (Lrep P lo hi # Ls) \<longleftrightarrow>
     (\<exists>u1 u2. u = u1 @ u2 \<and> list_all P u1 \<and> lo \<le> length u1
        \<and> (case hi of None \<Rightarrow> True | Some h \<Rightarrow> length u1 \<le> h) \<and> (u2, cs) \<in> Lseqs Ls)"
  by (simp only: Lseqs_Cons mem_Lseq_rep)

lemma peel_chr:
  "(u, cs) \<in> Lseqs (Lchr a # Ls) \<longleftrightarrow> (\<exists>u2. u = a # u2 \<and> (u2, cs) \<in> Lseqs Ls)"
  by (simp only: Lseqs_Cons mem_Lseq_chr)

lemma peel_grp:
  "(u, cs) \<in> Lseqs (Lgrp i L # Ls) \<longleftrightarrow>
     (\<exists>u1 cs1 u2 cs2. u = u1 @ u2 \<and> cs = cs2 @ (i, u1) # cs1 \<and> (u1, cs1) \<in> L
        \<and> (u2, cs2) \<in> Lseqs Ls)"
  by (simp only: Lseqs_Cons mem_Lseq_grp)

lemma peel_opt:
  "(u, cs) \<in> Lseqs (Lopt L # Ls) \<longleftrightarrow> (u, cs) \<in> Lseqs (L # Ls) \<or> (u, cs) \<in> Lseqs Ls"
  by (simp only: Lseqs_Cons mem_Lseq_opt)

lemma Lseqs_repI:
  "list_all P u1 \<Longrightarrow> lo \<le> length u1 \<Longrightarrow> (case hi of None \<Rightarrow> True | Some h \<Rightarrow> length u1 \<le> h) \<Longrightarrow>
   (u2, cs) \<in> Lseqs Ls \<Longrightarrow> (u1 @ u2, cs) \<in> Lseqs (Lrep P lo hi # Ls)"
  unfolding peel_rep by blast

lemma Lseqs_chrI:
  "(u2, cs) \<in> Lseqs Ls \<Longrightarrow> (a # u2, cs) \<in> Lseqs (Lchr a # Ls)"
  unfolding peel_chr by blast

lemma Lseqs_grpI:
  "(u1, cs1) \<in> L \<Longrightarrow> (u2, cs2) \<in> Lseqs Ls \<Longrightarrow>
   (u1 @ u2, cs2 @ (i, u1) # cs1) \<in> Lseqs (Lgrp i L # Ls)"
  unfolding peel_grp by blast

lemma LrepI:
  "list_all P u \<Longrightarrow> lo \<le> length u \<Longrightarrow> (case hi of None \<Rightarrow> True | Some h \<Rightarrow> length u \<le> h) \<Longrightarrow>
   (u, []) \<in> Lrep P lo hi"
  by (simp add: mem_Lrep)

lemma mem_sin_language: "(u, cs) \<in> sin_language \<longleftrightarrow> cs = [] \<and> is_sin u"
  unfolding sin_language_def
proof
  assume "(u, cs) \<in> Lseqs [Lrep is_digit 3 (Some 3), Lchr (CHR ''-''),
                     Lrep is_digit 3 (Some 3), Lchr (CHR ''-''),
                     Lrep is_digit 3 (Some 3)]"
  then obtain a b c where "u = a @ CHR ''-'' # b @ CHR ''-'' # c" "cs = []"
    "list_all is_digit a" "length a = 3" "list_all is_digit b" "length b = 3"
    "list_all is_digit c" "length c = 3"
    unfolding peel_rep peel_chr peel_Nil by auto
  then show "cs = [] \<and> is_sin u" unfolding is_sin_def digits_def by auto
next
  assume "cs = [] \<and> is_sin u"
  then obtain a b c where u: "u = a @ CHR ''-'' # b @ CHR ''-'' # c @ []" "cs = []"
    and d: "list_all is_digit a" "length a = 3" "list_all is_digit b" "length b = 3"
    "list_all is_digit c" "length c = 3"
    unfolding is_sin_def digits_def by auto
  show "(u, cs) \<in> Lseqs [Lrep is_digit 3 (Some 3), Lchr (CHR ''-''),
                     Lrep is_digit 3 (Some 3), Lchr (CHR ''-''),
                     Lrep is_digit 3 (Some 3)]"
    unfolding u using d by (intro Lseqs_repI Lseqs_chrI Lseqs_NilI) simp_all
qed

lemma mem_date_language: "(u, cs) \<in> date_language \<longleftrightarrow> cs = [] \<and> is_date u"
  unfolding date_language_def
proof
  assume "(u, cs) \<in> Lseqs [Lrep is_digit 2 (Some 2), Lchr (CHR ''/''),
                     Lrep is_digit 2 (Some 2), Lchr (CHR ''/''),
                     Lrep is_digit 2 (Some 2)]"
  then obtain a b c where "u = a @ CHR ''/'' # b @ CHR ''/'' # c" "cs = []"
    "list_all is_digit a" "length a = 2" "list_all is_digit b" "length b = 2"
    "list_all is_digit c" "length c = 2"
    unfolding peel_rep peel_chr peel_Nil by auto
  then show "cs = [] \<and> is_date u" unfolding is_date_def digits_def by auto
next
  assume "cs = [] \<and> is_date u"
  then obtain a b c where u: "u = a @ CHR ''/'' # b @ CHR ''/'' # c @ []" "cs = []"
    and d: "list_all is_digit a" "length a = 2" "list_all is_digit b" "length b = 2"
    "list_all is_digit c" "length c = 2"
    unfolding is_date_def digits_def by auto
  show "(u, cs) \<in> Lseqs [Lrep is_digit 2 (Some 2), Lchr (CHR ''/''),
                     Lrep is_digit 2 (Some 2), Lchr (CHR ''/''),
                     Lrep is_digit 2 (Some 2)]"
    unfolding u using d by (intro Lseqs_repI Lseqs_chrI Lseqs_NilI) simp_all
qed

lemma mem_amount_language: "(u, cs) \<in> amount_language \<longleftrightarrow> cs = [] \<and> is_amount u"
  unfolding amount_language_def
proof
  assume "(u, cs) \<in> Lseqs [Lopt (Lchr (CHR ''$'')),
                     Lrep (\<lambda>c. is_digit c \<or> c = CHR '','') 1 None,
                     Lchr (CHR ''.''),
                     Lrep is_digit 2 (Some 2)]"
  then consider
      "(u, cs) \<in> Lseqs [Lchr (CHR ''$''), Lrep (\<lambda>c. is_digit c \<or> c = CHR '','') 1 None,
                          Lchr (CHR ''.''), Lrep is_digit 2 (Some 2)]"
    | "(u, cs) \<in> Lseqs [Lrep (\<lambda>c. is_digit c \<or> c = CHR '','') 1 None,
                          Lchr (CHR ''.''), Lrep is_digit 2 (Some 2)]"
    unfolding peel_opt by blast
  then show "cs = [] \<and> is_amount u"
  proof cases
    case 1
    then obtain g c where a: "u = ''$'' @ g @ ''.'' @ c" "cs = []"
      "list_all (\<lambda>c. is_digit c \<or> c = CHR '','') g" "1 \<le> length g"
      "list_all is_digit c" "length c = 2"
      unfolding peel_rep peel_chr peel_Nil by auto
    from a(4) have "g \<noteq> []" by auto
    with a show ?thesis
      unfolding is_amount_def digits_def
      by (intro conjI exI [of _ "''$''"] exI [of _ g] exI [of _ c]) simp_all
  next
    case 2
    then obtain g c where a: "u = [] @ g @ ''.'' @ c" "cs = []"
      "list_all (\<lambda>c. is_digit c \<or> c = CHR '','') g" "1 \<le> length g"
      "list_all is_digit c" "length c = 2"
      unfolding peel_rep peel_chr peel_Nil by auto
    from a(4) have "g \<noteq> []" by auto
    with a show ?thesis
      unfolding is_amount_def digits_def
      by (intro conjI exI [of _ "[]"] exI [of _ g] exI [of _ c]) simp_all
  qed
next
  assume "cs = [] \<and> is_amount u"
  then obtain d g c where u: "u = d @ g @ CHR ''.'' # c @ []" "cs = []"
    and d: "d = [] \<or> d = ''$''" "list_all (\<lambda>c. is_digit c \<or> c = CHR '','') g" "g \<noteq> []"
    "list_all is_digit c" "length c = 2"
    unfolding is_amount_def digits_def by auto
  have g1: "1 \<le> length g" using d(3) by (cases g) simp_all
  have tail: "(g @ CHR ''.'' # c @ [], [])
      \<in> Lseqs [Lrep (\<lambda>c. is_digit c \<or> c = CHR '','') 1 None,
                Lchr (CHR ''.''), Lrep is_digit 2 (Some 2)]"
    using d g1 by (intro Lseqs_repI Lseqs_chrI Lseqs_NilI) simp_all
  from d(1) show "(u, cs) \<in> Lseqs [Lopt (Lchr (CHR ''$'')),
                     Lrep (\<lambda>c. is_digit c \<or> c = CHR '','') 1 None,
                     Lchr (CHR ''.''),
                     Lrep is_digit 2 (Some 2)]"
  proof
    assume "d = []"
    with tail show ?thesis unfolding u peel_opt by simp
  next
    assume "d = ''$''"
    with tail have "(CHR ''$'' # g @ CHR ''.'' # c @ [], [])
      \<in> Lseqs [Lchr (CHR ''$''),
                Lrep (\<lambda>c. is_digit c \<or> c = CHR '','') 1 None,
                Lchr (CHR ''.''), Lrep is_digit 2 (Some 2)]"
      by (intro Lseqs_chrI)
    with \<open>d = ''$''\<close> show ?thesis unfolding u peel_opt by simp
  qed
qed

lemma row_tail_iff:
  "(u, cs) \<in> Lseqs [Lrep is_space 0 None, Lgrp 4 (Lrep is_digit 4 None), Lrep is_space 1 None,
                     Lgrp 5 (Lrep is_dot 1 None), Lrep is_space 1 None, Lgrp 6 date_language,
                     Lrep is_space 1 None, Lgrp 7 amount_language]
   \<longleftrightarrow> (\<exists>w3 ce w4 nm w5 dt w6 am.
          u = w3 @ ce @ w4 @ nm @ w5 @ dt @ w6 @ am
          \<and> cs = [(7, am), (6, dt), (5, nm), (4, ce)]
          \<and> spaces w3 \<and> digits ce \<and> 4 \<le> length ce \<and> spaces w4 \<and> w4 \<noteq> []
          \<and> list_all is_dot nm \<and> nm \<noteq> [] \<and> spaces w5 \<and> w5 \<noteq> []
          \<and> is_date dt \<and> spaces w6 \<and> w6 \<noteq> [] \<and> is_amount am)"
  (is "?lhs \<longleftrightarrow> ?rhs")
proof
  assume ?lhs
  then show ?rhs
    unfolding peel_rep peel_grp peel_Nil mem_Lrep mem_date_language mem_amount_language
      spaces_def digits_def
    apply (elim exE conjE)
    apply hypsubst
    apply (intro exI conjI)
                  apply (rule refl)
                 apply simp_all
    apply auto
    done
next
  assume ?rhs
  then obtain w3 ce w4 nm w5 dt w6 am where
    u: "u = w3 @ ce @ w4 @ nm @ w5 @ dt @ w6 @ am @ []"
    and cs: "cs = ((([] @ (7, am) # []) @ (6, dt) # []) @ (5, nm) # []) @ (4, ce) # []"
    and a: "list_all is_space w3" "list_all is_digit ce" "4 \<le> length ce"
    "list_all is_space w4" "w4 \<noteq> []" "list_all is_dot nm" "nm \<noteq> []"
    "list_all is_space w5" "w5 \<noteq> []" "is_date dt"
    "list_all is_space w6" "w6 \<noteq> []" "is_amount am"
    unfolding spaces_def digits_def by auto
  have len: "1 \<le> length w4" "1 \<le> length nm" "1 \<le> length w5" "1 \<le> length w6"
    using a(5,7,9,12) by (simp_all add: Suc_le_eq)
  show ?lhs
    unfolding u cs using a len
    by (intro Lseqs_repI Lseqs_grpI Lseqs_NilI LrepI)
       (simp_all add: mem_date_language mem_amount_language)
qed

lemma ex_option: "(\<exists>g. P g) \<longleftrightarrow> P None \<or> (\<exists>x. P (Some x))"
  by (metis option.exhaust)

lemma row_language_iff:
  "(l, cs) \<in> row_language \<longleftrightarrow>
     (\<exists>g sno sn ce nm dt am.
        row_parse l sno sn g ce nm dt am \<and> cs = row_caps sno sn g ce nm dt am)"
  (is "?lhs \<longleftrightarrow> ?rhs")
proof -
  define tl where "tl = [Lrep is_space 0 None, Lgrp 4 (Lrep is_digit 4 None),
    Lrep is_space 1 None, Lgrp 5 (Lrep is_dot 1 None), Lrep is_space 1 None,
    Lgrp 6 date_language, Lrep is_space 1 None, Lgrp 7 amount_language]"
  have rl: "row_language
      = Lseqs (Lgrp 1 (Lrep is_digit 3 None) # Lrep is_space 1 None # Lgrp 2 sin_language
               # Lrep is_space 1 None # Lopt (Lgrp 3 (Lrep is_upper 2 (Some 2))) # tl)"
    by (simp add: row_language_def tl_def)
  have tail: "(u, c) \<in> Lseqs tl \<longleftrightarrow> (\<exists>w3 ce w4 nm w5 dt w6 am.
          u = w3 @ ce @ w4 @ nm @ w5 @ dt @ w6 @ am
          \<and> c = [(7, am), (6, dt), (5, nm), (4, ce)]
          \<and> spaces w3 \<and> digits ce \<and> 4 \<le> length ce \<and> spaces w4 \<and> w4 \<noteq> []
          \<and> list_all is_dot nm \<and> nm \<noteq> [] \<and> spaces w5 \<and> w5 \<noteq> []
          \<and> is_date dt \<and> spaces w6 \<and> w6 \<noteq> [] \<and> is_amount am)" for u c
    unfolding tl_def by (rule row_tail_iff)
  have one: "1 \<le> length w \<longleftrightarrow> w \<noteq> []" for w :: string
    by (cases w) simp_all
  show ?thesis
  proof
    assume ?lhs
    then show ?rhs
      unfolding rl peel_rep peel_grp peel_opt tail mem_Lrep mem_sin_language ex_option [of "\<lambda>g. \<exists>sno. _ g sno"]
        row_parse_def row_caps_def gov_text_def is_gov_def one
      apply (elim exE conjE disjE)
      subgoal
        apply (rule disjI2)
        apply hypsubst
        apply (simp only: option.case spaces_def digits_def append_Nil)
        apply (intro exI conjI)
                        apply (rule refl)
                        apply simp_all
        done
      subgoal
        apply (rule disjI1)
        apply hypsubst
        apply (simp only: option.case spaces_def digits_def append_Nil)
        apply (intro exI conjI)
                        apply (rule refl)
                        apply simp_all
        done
      done
  next
    assume ?rhs
    then obtain g sno sn ce nm dt am w1 w2 w3 w4 w5 w6 where
      l: "l = sno @ w1 @ sn @ w2 @ gov_text g @ w3 @ ce @ w4 @ nm @ w5 @ dt @ w6 @ am"
      and cs: "cs = row_caps sno sn g ce nm dt am"
      and hd: "list_all is_digit sno" "3 \<le> length sno" "list_all is_space w1" "w1 \<noteq> []"
        "is_sin sn" "list_all is_space w2" "w2 \<noteq> []" "is_gov g"
      and tl: "spaces w3" "digits ce" "4 \<le> length ce" "spaces w4" "w4 \<noteq> []"
        "list_all is_dot nm" "nm \<noteq> []" "spaces w5" "w5 \<noteq> []"
        "is_date dt" "spaces w6" "w6 \<noteq> []" "is_amount am"
      unfolding row_parse_def spaces_def digits_def by blast
    have t: "(w3 @ ce @ w4 @ nm @ w5 @ dt @ w6 @ am, [(7, am), (6, dt), (5, nm), (4, ce)])
        \<in> Lseqs tl"
      unfolding tail using tl by blast
    have len: "1 \<le> length w1" "1 \<le> length w2" using hd(4,7) one by blast+
    have opt: "(gov_text g @ w3 @ ce @ w4 @ nm @ w5 @ dt @ w6 @ am,
          [(7, am), (6, dt), (5, nm), (4, ce)] @ (case g of None \<Rightarrow> [] | Some x \<Rightarrow> [(3, x)]))
        \<in> Lseqs (Lopt (Lgrp 3 (Lrep is_upper 2 (Some 2))) # tl)"
    proof (cases g)
      case None
      with t show ?thesis unfolding peel_opt by (simp add: gov_text_def)
    next
      case (Some x)
      with hd(8) have x: "list_all is_upper x" "length x = 2" by (simp_all add: is_gov_def)
      have "(x @ w3 @ ce @ w4 @ nm @ w5 @ dt @ w6 @ am,
              [(7, am), (6, dt), (5, nm), (4, ce)] @ (3, x) # [])
            \<in> Lseqs (Lgrp 3 (Lrep is_upper 2 (Some 2)) # tl)"
        using t x by (intro Lseqs_grpI LrepI) simp_all
      with Some show ?thesis unfolding peel_opt by (simp add: gov_text_def)
    qed
    have "(sno @ w1 @ sn @ w2 @ gov_text g @ w3 @ ce @ w4 @ nm @ w5 @ dt @ w6 @ am,
           (([(7, am), (6, dt), (5, nm), (4, ce)] @ (case g of None \<Rightarrow> [] | Some x \<Rightarrow> [(3, x)]))
             @ (2, sn) # []) @ (1, sno) # [])
          \<in> row_language"
      unfolding rl using hd len opt
      by (intro Lseqs_grpI Lseqs_repI LrepI) (simp_all add: mem_sin_language)
    then show ?lhs unfolding l cs by (simp add: row_caps_def)
  qed
qed

section \<open>The row parser\<close>

lemma row_rx_eq: "row_rx = seqs (bol # row_body @ [eol])"
  by (simp add: row_rx_def row_body_def)

lemma seqs_bol: "seqs (bol # rs) st = (if seen st = [] then seqs rs st else [])"
  by (simp add: seqs_Cons seq_def bol_def)

lemma seqs_eol: "set (seqs (rs @ [eol]) st) = {m \<in> set (seqs rs st). rest m = []}"
proof (induction rs arbitrary: st)
  case Nil
  show ?case by (auto simp: seqs_Cons seqs_Nil seq_def eol_def eps_def)
next
  case (Cons r rs)
  show ?case by (auto simp: seqs_Cons seq_def Cons.IH)
qed

lemma row_rx_states:
  "set (row_rx \<lparr>seen = [], rest = l, caps = []\<rparr>)
     = {\<lparr>seen = rev l, rest = [], caps = cs\<rparr> | cs. (l, cs) \<in> row_language}"
  (is "?A = ?B")
proof -
  let ?st = "\<lparr>seen = [], rest = l, caps = []\<rparr>"
  have body: "set (seqs row_body ?st)
      = {adv ?st u cs | u cs. (u, cs) \<in> row_language \<and> prefix u l}"
    using consuming_row_body by (simp add: consuming_def)
  have A: "?A = {m \<in> set (seqs row_body ?st). rest m = []}"
    by (simp add: row_rx_eq seqs_bol seqs_eol)
  have full: "prefix u l \<Longrightarrow> drop (length u) l = [] \<longleftrightarrow> u = l" for u
    by (auto simp: prefix_def)
  show ?thesis
  proof (intro set_eqI iffI)
    fix m assume "m \<in> ?A"
    then obtain u cs where m: "m = adv ?st u cs" "(u, cs) \<in> row_language" "prefix u l"
      "rest m = []" unfolding A body by auto
    from m(1,4) have "length l \<le> length u" by (simp add: adv_def)
    with m(3) have "u = l" by (auto simp: prefix_def)
    with m(1,2) show "m \<in> ?B" by (auto simp: adv_def)
  next
    fix m assume "m \<in> ?B"
    then obtain cs where cs: "m = \<lparr>seen = rev l, rest = [], caps = cs\<rparr>" "(l, cs) \<in> row_language"
      by auto
    then have "m = adv ?st l cs" by (simp add: adv_def)
    moreover have "rest m = []" using cs(1) by simp
    ultimately show "m \<in> ?A" unfolding A body using cs(2) by auto
  qed
qed

lemma search_from_anchored:
  "(\<And>st. seen st \<noteq> [] \<Longrightarrow> r st = []) \<Longrightarrow> bef \<noteq> [] \<Longrightarrow> search_from r bef s = None"
  by (induction s arbitrary: bef) simp_all

lemma str_match_anchored:
  assumes "\<And>st. seen st \<noteq> [] \<Longrightarrow> r st = []"
  shows "str_match l r = (case r \<lparr>seen = [], rest = l, caps = []\<rparr> of [] \<Rightarrow> None | m # _ \<Rightarrow> Some m)"
proof (cases l)
  case Nil
  then show ?thesis by (simp add: str_match_def)
next
  case (Cons c cs)
  have "search_from r [c] cs = None" by (rule search_from_anchored [OF assms]) simp_all
  with Cons show ?thesis by (simp add: str_match_def split: list.splits)
qed

lemma str_match_row:
  "str_match l row_rx = (case row_rx \<lparr>seen = [], rest = l, caps = []\<rparr> of [] \<Rightarrow> None | m # _ \<Rightarrow> Some m)"
  by (rule str_match_anchored) (simp add: row_rx_eq seqs_bol)

lemma str_match_row_None: "str_match l row_rx = None \<longleftrightarrow> \<not> row_grammar l"
proof -
  have "str_match l row_rx = None \<longleftrightarrow> set (row_rx \<lparr>seen = [], rest = l, caps = []\<rparr>) = {}"
    unfolding str_match_row by (simp split: list.splits)
  also have "\<dots> \<longleftrightarrow> \<not> (\<exists>cs. (l, cs) \<in> row_language)"
    unfolding row_rx_states by auto
  also have "\<dots> \<longleftrightarrow> \<not> row_grammar l"
    unfolding row_language_iff row_grammar_def by blast
  finally show ?thesis .
qed

lemma str_match_row_Some:
  assumes "str_match l row_rx = Some m"
  shows "\<exists>g sno sn ce nm dt am.
           row_parse l sno sn g ce nm dt am \<and> caps m = row_caps sno sn g ce nm dt am"
proof -
  from assms have "m \<in> set (row_rx \<lparr>seen = [], rest = l, caps = []\<rparr>)"
    unfolding str_match_row by (auto split: list.splits)
  then obtain cs where "caps m = cs" "(l, cs) \<in> row_language"
    unfolding row_rx_states by auto
  then show ?thesis unfolding row_language_iff by blast
qed

lemma upper_not_space: "is_upper c \<Longrightarrow> \<not> is_space c"
  by (auto simp: is_upper_def is_space_def)

lemma trim_id: "s \<noteq> [] \<Longrightarrow> \<not> is_space (hd s) \<Longrightarrow> \<not> is_space (last s) \<Longrightarrow> trim s = s"
proof -
  assume a: "s \<noteq> []" "\<not> is_space (hd s)" "\<not> is_space (last s)"
  from a(1,2) have 1: "dropWhile is_space s = s" by (cases s) simp_all
  from a(1,3) have "\<not> is_space (hd (rev s))" by (simp add: hd_rev)
  with a(1) have 2: "dropWhile is_space (rev s) = rev s" by (cases "rev s") simp_all
  show ?thesis by (simp add: trim_def 1 2)
qed

lemma group_row_caps:
  "map_of (row_caps sno sn g ce nm dt am) 1 = Some sno"
  "map_of (row_caps sno sn g ce nm dt am) 2 = Some sn"
  "map_of (row_caps sno sn g ce nm dt am) 3 = g"
  "map_of (row_caps sno sn g ce nm dt am) 4 = Some ce"
  "map_of (row_caps sno sn g ce nm dt am) 5 = Some nm"
  "map_of (row_caps sno sn g ce nm dt am) 6 = Some dt"
  "map_of (row_caps sno sn g ce nm dt am) 7 = Some am"
  by (simp_all add: row_caps_def split: option.splits)

lemma gov_field:
  assumes "is_gov g"
  shows "(let x = trim (case g of None \<Rightarrow> [] | Some s \<Rightarrow> s) in if x = [] then None else Some x) = g"
proof (cases g)
  case None
  then show ?thesis by (simp add: trim_def)
next
  case (Some x)
  with assms have x: "list_all is_upper x" "length x = 2" by (simp_all add: is_gov_def)
  then obtain a b where ab: "x = [a, b]" by (cases x; cases "tl x") auto
  with x(1) have "\<not> is_space (hd x)" "\<not> is_space (last x)" "x \<noteq> []"
    by (simp_all add: upper_not_space)
  then have "trim x = x" by (simp add: trim_id)
  with Some \<open>x \<noteq> []\<close> show ?thesis by simp
qed

lemma parseRow_None: "parseRow line = None \<longleftrightarrow> \<not> row_grammar (normalize line)"
proof (cases "str_match (normalize line) row_rx")
  case None
  then show ?thesis using str_match_row_None [of "normalize line"]
    by (simp add: parseRow_def Let_def)
next
  case (Some m)
  then show ?thesis using str_match_row_None [of "normalize line"]
    by (simp add: parseRow_def Let_def)
qed

lemma parseRow_Some:
  assumes "parseRow line = Some r"
  shows "\<exists>g sno sn ce nm dt am.
           row_parse (normalize line) sno sn g ce nm dt am \<and> r = row_of sno sn g ce nm dt am"
proof -
  from assms obtain m where m: "str_match (normalize line) row_rx = Some m"
    and r: "r = \<lparr>studentNo = group m 1, sin_field = group m 2,
                gov = (let g = trim (case group m 3 of None \<Rightarrow> [] | Some s \<Rightarrow> s)
                       in if g = [] then None else Some g),
                cert = group m 4, name = group m 5, eosDate = group m 6,
                amount = of_opt (group m 7), extra = []\<rparr>"
    by (auto simp: parseRow_def Let_def split: option.splits)
  from str_match_row_Some [OF m] obtain g sno sn ce nm dt am where
    p: "row_parse (normalize line) sno sn g ce nm dt am"
    and c: "caps m = row_caps sno sn g ce nm dt am" by blast
  from p have "is_gov g" by (auto simp: row_parse_def)
  then have "r = row_of sno sn g ce nm dt am"
    unfolding r group_def c group_row_caps row_of_def of_opt_def
    by (simp add: gov_field)
  with p show ?thesis by blast
qed

text \<open>
  Claim C5. The example line parses to the seven fields of the example. A line gives a
  row only if, once normalized, it matches the grammar from start to end: there is no
  row when it does not, and every row that is returned holds the fields of a full match,
  with \<open>gov\<close> absent (never empty) when the line has no such field.
\<close>

theorem row_parser_all_or_nothing:
  "parseRow ''000123 123-456-789 ON 45678 DOE JOHN 08/09/23 $2,205.00''
     = Some \<lparr>studentNo = Some ''000123'', sin_field = Some ''123-456-789'', gov = Some ''ON'',
             cert = Some ''45678'', name = Some ''DOE JOHN'', eosDate = Some ''08/09/23'',
             amount = Str ''$2,205.00'', extra = []\<rparr>
   \<and> gov_of_line ''000123 123-456-789 45678 DOE JOHN 08/09/23 $2,205.00'' = Some None
   \<and> (\<forall>line. parseRow line = None \<longleftrightarrow> \<not> row_grammar (normalize line))
   \<and> (\<forall>line r. parseRow line = Some r \<longrightarrow>
         (\<exists>g sno sn ce nm dt am.
            row_parse (normalize line) sno sn g ce nm dt am
            \<and> r = row_of sno sn g ce nm dt am))
   \<and> (\<forall>line r. parseRow line = Some r \<longrightarrow> gov r \<noteq> Some [])"
proof (intro conjI allI impI)
  show "parseRow ''000123 123-456-789 ON 45678 DOE JOHN 08/09/23 $2,205.00''
     = Some \<lparr>studentNo = Some ''000123'', sin_field = Some ''123-456-789'', gov = Some ''ON'',
             cert = Some ''45678'', name = Some ''DOE JOHN'', eosDate = Some ''08/09/23'',
             amount = Str ''$2,205.00'', extra = []\<rparr>"
    by code_simp
  show "gov_of_line ''000123 123-456-789 45678 DOE JOHN 08/09/23 $2,205.00'' = Some None"
    by code_simp
next
  fix line
  show "parseRow line = None \<longleftrightarrow> \<not> row_grammar (normalize line)"
    by (rule parseRow_None)
next
  fix line r
  assume "parseRow line = Some r"
  then show "\<exists>g sno sn ce nm dt am.
            row_parse (normalize line) sno sn g ce nm dt am
            \<and> r = row_of sno sn g ce nm dt am"
    by (rule parseRow_Some)
next
  fix line r
  assume "parseRow line = Some r"
  from parseRow_Some [OF this] obtain g sno sn ce nm dt am where
    p: "row_parse (normalize line) sno sn g ce nm dt am" and r: "r = row_of sno sn g ce nm dt am"
    by blast
  from p have "is_gov g" by (auto simp: row_parse_def)
  then have "g \<noteq> Some []" by (auto simp: is_gov_def)
  with r show "gov r \<noteq> Some []" by (simp add: row_of_def)
qed

theorem row_parser_all_or_nothing_witness:
  "parseRow ''page 1 of 1'' = None
   \<and> \<not> row_grammar (normalize ''page 1 of 1'')
   \<and> parseRow sample_row_line = Some sample_row
   \<and> (\<exists>g sno sn ce nm dt am.
         row_parse (normalize sample_row_line) sno sn g ce nm dt am
         \<and> sample_row = row_of sno sn g ce nm dt am)
   \<and> gov sample_row \<noteq> Some []"
proof -
  have a: "parseRow ''page 1 of 1'' = None" by code_simp
  have b: "parseRow sample_row_line = Some sample_row" by code_simp
  note inst = row_parser_all_or_nothing
  from inst a have "\<not> row_grammar (normalize ''page 1 of 1'')" by blast
  moreover from inst b have "\<exists>g sno sn ce nm dt am.
         row_parse (normalize sample_row_line) sno sn g ce nm dt am
         \<and> sample_row = row_of sno sn g ce nm dt am" by blast
  moreover from inst b have "gov sample_row \<noteq> Some []" by blast
  ultimately show ?thesis using a b by simp
qed

section \<open>Numeric coercion\<close>

lemma replace_class_Nil: "replace_class P [] s = filter (\<lambda>c. \<not> P c) s"
  by (induction s) (simp_all add: replace_class_def)

lemma toNumber_same: "toNumber_makeExcel v = toNumber v"
proof (cases v)
  case Undefined
  have "replace_class strip_class [] ''undefined'' = ''undefined''"
    by (simp add: replace_class_Nil strip_class_def is_space_def)
  moreover have "StringToNumber ''undefined'' = NaN"
    by (simp add: StringToNumber_def trim_def is_space_def radix_literal_def split_sign_def
          decimal_literal_def is_digit_def Let_def)
  ultimately show ?thesis
    using Undefined
    by (simp add: toNumber_makeExcel_def toNumber_def asString_def js_String_def js_Number_def
          replace_class_Nil isFinite_def)
next
  case (Str s)
  then show ?thesis
    by (simp add: toNumber_makeExcel_def toNumber_def asString_def js_String_def)
next
  case (Num n)
  then show ?thesis by (simp add: toNumber_makeExcel_def toNumber_def)
qed

lemma toNumber_finite: "isFinite (toNumber v)"
  using toNumber_makeExcel_finite [of v] by (simp add: toNumber_same)

lemma StringToNumber_Nil: "StringToNumber [] = Fin 0"
  by (simp add: StringToNumber_def trim_def)

lemma toNumber_Str:
  "toNumber (Str s)
     = (case StringToNumber (replace_class strip_class [] s) of Fin q \<Rightarrow> Fin q | _ \<Rightarrow> Fin 0)"
  by (simp add: toNumber_def js_String_def js_Number_def Let_def isFinite_def StringToNumber_Nil
        split: number.splits)

lemma toNumber_Num: "toNumber (Num n) = (case n of Fin q \<Rightarrow> Fin q | _ \<Rightarrow> Fin 0)"
  by (simp add: toNumber_def isFinite_def split: number.splits)

lemma toNumber_Undefined: "toNumber Undefined = Fin 0"
proof -
  have "toNumber_makeExcel Undefined = Fin 0"
    by (simp add: toNumber_makeExcel_def asString_def replace_class_Nil js_Number_def isFinite_def)
  then show ?thesis by (simp add: toNumber_same)
qed

lemma digit_val_range: "is_digit c \<Longrightarrow> 0 \<le> digit_val c \<and> digit_val c \<le> 9"
  by (auto simp: is_digit_def digit_val_def)

lemma foldl_digits_nonneg:
  "list_all is_digit ds \<Longrightarrow> 0 \<le> a \<Longrightarrow> 0 \<le> foldl (\<lambda>a c. 10 * a + digit_val c) a ds"
proof (induction ds arbitrary: a)
  case Nil
  then show ?case by simp
next
  case (Cons d ds)
  from Cons.prems have "0 \<le> 10 * a + digit_val d" using digit_val_range [of d] by simp
  with Cons show ?case by simp
qed

lemma digits_val_nonneg: "list_all is_digit ds \<Longrightarrow> 0 \<le> digits_val ds"
  unfolding digits_val_def by (rule foldl_digits_nonneg) simp_all

lemma plain_not_space: "plain_decimal c \<Longrightarrow> \<not> is_space c"
  by (auto simp: plain_decimal_def is_digit_def is_space_def)

lemma radix_literal_plain: "list_all plain_decimal s \<Longrightarrow> radix_literal s = None"
  by (auto simp: radix_literal_def plain_decimal_def is_digit_def split: list.splits)

lemma split_sign_plain: "list_all plain_decimal s \<Longrightarrow> split_sign s = (False, s)"
  by (auto simp: split_sign_def plain_decimal_def is_digit_def split: list.splits)

lemma Infinity_not_plain: "list_all plain_decimal s \<Longrightarrow> s \<noteq> ''Infinity''"
  by (auto simp: plain_decimal_def is_digit_def)

lemma takeWhile_digits: "list_all is_digit g \<Longrightarrow> takeWhile is_digit (g @ CHR ''.'' # c) = g"
  by (induction g) (simp_all add: is_digit_def)

lemma dropWhile_digits: "list_all is_digit g \<Longrightarrow> dropWhile is_digit (g @ CHR ''.'' # c) = CHR ''.'' # c"
  by (induction g) (simp_all add: is_digit_def)

lemma takeWhile_all: "list_all P c \<Longrightarrow> takeWhile P c = c"
  by (induction c) simp_all

lemma dropWhile_all: "list_all P c \<Longrightarrow> dropWhile P c = []"
  by (induction c) simp_all

lemma decimal_literal_plain:
  assumes "list_all is_digit g" "list_all is_digit c" "c \<noteq> []"
  shows "decimal_literal (g @ CHR ''.'' # c)
           = Some (of_int (digits_val g) + of_int (digits_val c) / 10 ^ length c)"
  using assms
  by (simp add: decimal_literal_def Let_def takeWhile_digits dropWhile_digits takeWhile_all
        dropWhile_all exponent_part_def scale10_def)

lemma StringToNumber_plain:
  assumes "list_all is_digit g" "list_all is_digit c" "length c = 2"
  shows "\<exists>k::nat. StringToNumber (g @ CHR ''.'' # c) = Fin (of_nat k / 100)
           \<or> StringToNumber (g @ CHR ''.'' # c) = PosInf"
proof -
  let ?s = "g @ CHR ''.'' # c"
  let ?k = "100 * digits_val g + digits_val c"
  have pl: "list_all plain_decimal ?s"
    using assms(1,2) by (auto simp: plain_decimal_def list_all_iff)
  have c: "c \<noteq> []" using assms(3) by auto
  have "hd ?s \<in> set ?s" "last ?s \<in> set ?s" by (intro hd_in_set last_in_set; simp)+
  with pl have "plain_decimal (hd ?s)" "plain_decimal (last ?s)"
    unfolding list_all_iff by blast+
  then have "\<not> is_space (hd ?s)" "\<not> is_space (last ?s)"
    by (simp_all add: plain_not_space)
  then have tr: "trim ?s = ?s" by (intro trim_id) simp_all
  have k0: "0 \<le> ?k" using digits_val_nonneg assms(1,2) by simp
  have q: "of_int (digits_val g) + of_int (digits_val c) / 10 ^ length c
        = (of_nat (nat ?k) :: rat) / 100"
    using k0 assms(3) by (simp add: field_simps)
  have "StringToNumber ?s = as_double (of_nat (nat ?k) / 100)"
    unfolding StringToNumber_def tr Let_def
    using radix_literal_plain [OF pl] split_sign_plain [OF pl] Infinity_not_plain [OF pl]
      decimal_literal_plain [OF assms(1,2) c] q
    by simp
  moreover have "(0::rat) \<le> of_nat (nat ?k) / 100" by simp
  ultimately show ?thesis
    by (auto simp: as_double_def intro!: exI [of _ "nat ?k"])
qed

lemma strip_amount:
  assumes "is_amount am"
  shows "\<exists>g c. replace_class strip_class [] am = g @ CHR ''.'' # c
           \<and> list_all is_digit g \<and> list_all is_digit c \<and> length c = 2"
proof -
  from assms obtain d g c where am: "am = d @ g @ ''.'' @ c" and d: "d = [] \<or> d = ''$''"
    and g: "list_all (\<lambda>c. is_digit c \<or> c = CHR '','') g"
    and c: "list_all is_digit c" "length c = 2"
    unfolding is_amount_def digits_def by blast
  let ?keep = "\<lambda>x. \<not> strip_class x"
  have dk: "is_digit x \<Longrightarrow> ?keep x" for x
    by (auto simp: strip_class_def is_digit_def is_space_def)
  have fd: "filter ?keep d = []" using d by (auto simp: strip_class_def)
  have fc: "filter ?keep c = c" using c(1) dk by (auto simp: list_all_iff filter_id_conv)
  have fg: "list_all is_digit (filter ?keep g)"
    using g by (auto simp: list_all_iff strip_class_def)
  have "replace_class strip_class [] am = filter ?keep g @ CHR ''.'' # c"
    unfolding replace_class_Nil am using fd fc
    by (simp add: strip_class_def is_space_def)
  with fg c show ?thesis by blast
qed

lemma toNumber_amount:
  assumes "is_amount am"
  shows "\<exists>k::nat. toNumber (Str am) = Fin (of_nat k / 100)"
proof -
  from strip_amount [OF assms] obtain g c where
    s: "replace_class strip_class [] am = g @ CHR ''.'' # c"
    and gc: "list_all is_digit g" "list_all is_digit c" "length c = 2" by blast
  from StringToNumber_plain [OF gc] obtain k :: nat where
    "StringToNumber (g @ CHR ''.'' # c) = Fin (of_nat k / 100)
     \<or> StringToNumber (g @ CHR ''.'' # c) = PosInf" by blast
  then show ?thesis
  proof
    assume "StringToNumber (g @ CHR ''.'' # c) = Fin (of_nat k / 100)"
    then have "toNumber (Str am) = Fin (of_nat k / 100)" by (simp add: toNumber_Str s)
    then show ?thesis by blast
  next
    assume "StringToNumber (g @ CHR ''.'' # c) = PosInf"
    then have "toNumber (Str am) = Fin (of_nat 0 / 100)" by (simp add: toNumber_Str s)
    then show ?thesis by blast
  qed
qed

lemma parseRow_amount:
  assumes "parseRow line = Some r"
  shows "\<exists>am. amount r = Str am \<and> is_amount am"
proof -
  from parseRow_Some [OF assms] obtain g sno sn ce nm dt am where
    "row_parse (normalize line) sno sn g ce nm dt am" "r = row_of sno sn g ce nm dt am"
    by blast
  then show ?thesis by (auto simp: row_parse_def row_of_def)
qed

text \<open>
  Claim C9. Numeric coercion is total and its result is always a finite number: a number
  that is not finite, a text that is no numeric literal or whose value is not finite,
  and an absent value all give 0 (the coercion of the workbook assembler is the same
  function). The amount of every row that the row parser returns matches the amount
  grammar, and its coercion is \<open>k / 100\<close> for a natural number \<open>k\<close>: not negative,
  and with at most two decimals.
\<close>

theorem numeric_coercion:
  "(\<forall>v. isFinite (toNumber v) \<and> toNumber_makeExcel v = toNumber v)
   \<and> (\<forall>s. toNumber (Str s)
            = (case StringToNumber (replace_class strip_class [] s) of
                 Fin q \<Rightarrow> Fin q | _ \<Rightarrow> Fin 0))
   \<and> (\<forall>n. toNumber (Num n) = (case n of Fin q \<Rightarrow> Fin q | _ \<Rightarrow> Fin 0))
   \<and> toNumber Undefined = Fin 0
   \<and> (\<forall>line r. parseRow line = Some r \<longrightarrow>
         (\<exists>am k. amount r = Str am \<and> is_amount am
                  \<and> toNumber (amount r) = Fin (of_nat k / 100)))"
proof (intro conjI allI impI)
  fix line r
  assume "parseRow line = Some r"
  from parseRow_amount [OF this] obtain am where am: "amount r = Str am" "is_amount am" by blast
  from toNumber_amount [OF am(2)] obtain k :: nat where "toNumber (Str am) = Fin (of_nat k / 100)"
    by blast
  with am show "\<exists>am k. amount r = Str am \<and> is_amount am
                  \<and> toNumber (amount r) = Fin (of_nat k / 100)" by auto
qed (simp_all add: toNumber_finite toNumber_same toNumber_Str toNumber_Num toNumber_Undefined)

theorem numeric_coercion_witness:
  "parseRow sample_row_line = Some sample_row
   \<and> toNumber (amount sample_row) = Fin 2205
   \<and> (\<exists>am k. amount sample_row = Str am \<and> is_amount am
               \<and> toNumber (amount sample_row) = Fin (of_nat k / 100))
   \<and> toNumber (Str ''N/A'') = Fin 0
   \<and> toNumber (Num PosInf) = Fin 0"
proof -
  have b: "parseRow sample_row_line = Some sample_row" by code_simp
  have v: "toNumber (amount sample_row) = Fin 2205" by code_simp
  have n: "StringToNumber (replace_class strip_class [] ''N/A'') = NaN" by code_simp
  note inst = numeric_coercion
  from inst b have "\<exists>am k. amount sample_row = Str am \<and> is_amount am
               \<and> toNumber (amount sample_row) = Fin (of_nat k / 100)" by blast
  moreover from inst n have "toNumber (Str ''N/A'') = Fin 0" by simp
  moreover from inst have "toNumber (Num PosInf) = Fin 0" by simp
  ultimately show ?thesis using b v by simp
qed

section \<open>Synthesized lines\<close>

subsection \<open>The normalizer on a tidy line\<close>

lemma replace_class_id: "list_all (\<lambda>c. \<not> P c) s \<Longrightarrow> replace_class P t s = s"
  by (induction s) (simp_all add: replace_class_def)

lemma replace_runs_id:
  "list_all (\<lambda>c. c \<noteq> CHR 0x09) s \<Longrightarrow> single_spaced s \<Longrightarrow> replace_runs is_blank '' '' s = s"
proof (induction s rule: single_spaced.induct)
  case (1 a b s)
  then have ih: "replace_runs is_blank '' '' (b # s) = b # s" by simp
  show ?case
  proof (cases "is_blank a")
    case True
    with 1(2) have a: "a = CHR 0x20" by (simp add: is_blank_def)
    with 1(2,3) have "\<not> is_blank b" by (auto simp: is_blank_def)
    with True a ih show ?thesis by simp
  next
    case False
    with ih show ?thesis by simp
  qed
next
  case "2_1"
  show ?case by simp
next
  case "2_2"
  then show ?case by (auto simp: is_blank_def)
qed

lemma normalize_id:
  assumes "edge_clean s"
  shows "normalize s = s"
proof -
  from assms have a: "s \<noteq> []" "list_all (\<lambda>c. c \<noteq> CHR 0x09 \<and> c \<noteq> CHR 0xA0) s"
    "single_spaced s" "\<not> is_space (hd s)" "\<not> is_space (last s)"
    by (simp_all add: edge_clean_def)
  from a(2) have 1: "replace_class (is_chr (CHR 0xA0)) '' '' s = s"
    by (intro replace_class_id) (simp add: list_all_iff is_chr_def)
  from a(2) have "list_all (\<lambda>c. c \<noteq> CHR 0x09) s" by (simp add: list_all_iff)
  then have 2: "replace_runs is_blank '' '' s = s" using a(3) by (rule replace_runs_id)
  show ?thesis unfolding normalize_def 1 2 using a(1,4,5) by (rule trim_id)
qed

lemma single_spaced_join:
  "single_spaced a \<Longrightarrow> single_spaced b \<Longrightarrow> a \<noteq> [] \<Longrightarrow> last a \<noteq> CHR 0x20 \<Longrightarrow> b \<noteq> [] \<Longrightarrow>
   hd b \<noteq> CHR 0x20 \<Longrightarrow> single_spaced (a @ CHR 0x20 # b)"
proof (induction a rule: single_spaced.induct)
  case (1 x y s)
  then show ?case by simp
next
  case "2_1"
  then show ?case by simp
next
  case "2_2"
  then show ?case by (cases b) simp_all
qed

lemma space_is_space: "is_space (CHR 0x20)"
  by (simp add: is_space_def)

lemma edge_clean_join:
  assumes "edge_clean a" "edge_clean b"
  shows "edge_clean (a @ CHR 0x20 # b)"
proof -
  from assms have a: "a \<noteq> []" "single_spaced a" "\<not> is_space (hd a)" "\<not> is_space (last a)"
    and b: "b \<noteq> []" "single_spaced b" "\<not> is_space (hd b)" "\<not> is_space (last b)"
    and l: "list_all (\<lambda>c. c \<noteq> CHR 0x09 \<and> c \<noteq> CHR 0xA0) a"
           "list_all (\<lambda>c. c \<noteq> CHR 0x09 \<and> c \<noteq> CHR 0xA0) b"
    by (simp_all add: edge_clean_def)
  from a(4) b(3) have "last a \<noteq> CHR 0x20" "hd b \<noteq> CHR 0x20"
    using space_is_space by auto
  with a b have "single_spaced (a @ CHR 0x20 # b)" by (intro single_spaced_join)
  with a b l show ?thesis by (simp add: edge_clean_def)
qed

lemma single_spaced_solid: "list_all (\<lambda>c. \<not> is_space c) s \<Longrightarrow> single_spaced s"
  by (induction s rule: single_spaced.induct) (auto simp: space_is_space)

lemma edge_clean_solid:
  assumes "s \<noteq> []" "list_all (\<lambda>c. \<not> is_space c) s"
  shows "edge_clean s"
proof -
  have "hd s \<in> set s" "last s \<in> set s" using assms(1) by simp_all
  with assms(2) have "\<not> is_space (hd s)" "\<not> is_space (last s)"
    unfolding list_all_iff by blast+
  moreover have "list_all (\<lambda>c. c \<noteq> CHR 0x09 \<and> c \<noteq> CHR 0xA0) s"
    using assms(2) by (auto simp: list_all_iff is_space_def)
  ultimately show ?thesis
    using assms single_spaced_solid by (simp add: edge_clean_def)
qed

subsection \<open>The characters of the fields\<close>

lemma digit_not_space: "is_digit c \<Longrightarrow> \<not> is_space c"
  by (auto simp: is_digit_def is_space_def)

lemma upper_not_digit: "is_upper c \<Longrightarrow> \<not> is_digit c"
  by (auto simp: is_digit_def is_upper_def)

lemma space_not_digit: "is_space c \<Longrightarrow> \<not> is_digit c"
  using digit_not_space by blast

lemma digits_solid: "digits s \<Longrightarrow> list_all (\<lambda>c. \<not> is_space c) s"
  by (auto simp: digits_def list_all_iff digit_not_space)

lemma sin_facts:
  assumes "is_sin s"
  shows "length s = 11" "s \<noteq> []" "is_digit (hd s)" "list_all (\<lambda>c. \<not> is_space c) s"
proof -
  from assms obtain a b c where s: "s = a @ ''-'' @ b @ ''-'' @ c"
    and d: "digits a" "length a = 3" "digits b" "length b = 3" "digits c" "length c = 3"
    unfolding is_sin_def by blast
  show "length s = 11" "s \<noteq> []" using s d by simp_all
  from d(1,2) show "is_digit (hd s)" unfolding s digits_def by (cases a) simp_all
  have "\<not> is_space (CHR ''-'')" by (simp add: is_space_def)
  then show "list_all (\<lambda>c. \<not> is_space c) s"
    unfolding s using d(1,3,5) by (simp add: digits_solid)
qed

lemma date_facts:
  assumes "is_date s"
  shows "length s = 8" "s \<noteq> []" "is_digit (last s)" "list_all (\<lambda>c. \<not> is_space c) s"
proof -
  from assms obtain a b c where s: "s = a @ ''/'' @ b @ ''/'' @ c"
    and d: "digits a" "length a = 2" "digits b" "length b = 2" "digits c" "length c = 2"
    unfolding is_date_def by blast
  show "length s = 8" "s \<noteq> []" using s d by simp_all
  from d(6) have "c \<noteq> []" by auto
  then have "last s = last c" unfolding s by simp
  moreover have "last c \<in> set c" using \<open>c \<noteq> []\<close> by simp
  ultimately show "is_digit (last s)" using d(5) by (simp add: digits_def list_all_iff)
  have "\<not> is_space (CHR ''/'')" by (simp add: is_space_def)
  then show "list_all (\<lambda>c. \<not> is_space c) s"
    unfolding s using d(1,3,5) by (simp add: digits_solid)
qed

lemma amount_facts:
  assumes "is_amount s"
  shows "s \<noteq> []" "list_all (\<lambda>c. \<not> is_space c) s"
proof -
  from assms obtain d g c where s: "s = d @ g @ ''.'' @ c" and d: "d = [] \<or> d = ''$''"
    and g: "list_all (\<lambda>c. is_digit c \<or> c = CHR '','') g" and c: "digits c"
    unfolding is_amount_def by blast
  show "s \<noteq> []" unfolding s by simp
  have "\<not> is_space (CHR ''.'')" "\<not> is_space (CHR '','')" "\<not> is_space (CHR ''$'')"
    by (simp_all add: is_space_def)
  moreover have "list_all (\<lambda>c. \<not> is_space c) d" using d calculation by auto
  moreover have "list_all (\<lambda>c. \<not> is_space c) g"
    using g calculation by (auto simp: list_all_iff digit_not_space)
  ultimately show "list_all (\<lambda>c. \<not> is_space c) s"
    unfolding s using c by (simp add: digits_solid)
qed

lemma gov_facts:
  assumes "is_gov (Some x)"
  shows "length x = 2" "x \<noteq> []" "is_upper (hd x)" "list_all (\<lambda>c. \<not> is_space c) x"
proof -
  from assms have x: "list_all is_upper x" "length x = 2" by (simp_all add: is_gov_def)
  then show "length x = 2" "x \<noteq> []" by auto
  from x show "is_upper (hd x)" by (cases x) simp_all
  from x(1) show "list_all (\<lambda>c. \<not> is_space c) x"
    by (auto simp: list_all_iff upper_not_space)
qed

subsection \<open>Where a field ends\<close>

lemma sep_left:
  assumes "w @ r' = c # r" "w \<noteq> []" "list_all is_space w" "r \<noteq> []" "\<not> is_space (hd r)"
  shows "w = [c] \<and> r' = r"
proof -
  from assms(1,2) obtain w' where w: "w = c # w'" "w' @ r' = r" by (cases w) auto
  have "w' = []"
  proof (rule ccontr)
    assume "w' \<noteq> []"
    then have "hd r = hd w'" using w(2) by (cases w') auto
    moreover have "is_space (hd w')" using assms(3) w(1) \<open>w' \<noteq> []\<close> by (cases w') auto
    ultimately show False using assms(5) by simp
  qed
  with w show ?thesis by simp
qed

lemma sep_none:
  assumes "w @ r' = r" "list_all is_space w" "r \<noteq> []" "\<not> is_space (hd r)"
  shows "w = [] \<and> r' = r"
proof -
  have "w = []"
  proof (rule ccontr)
    assume "w \<noteq> []"
    then have "hd r = hd w" using assms(1) by (cases w) auto
    moreover have "is_space (hd w)" using assms(2) \<open>w \<noteq> []\<close> by (cases w) auto
    ultimately show False using assms(4) by simp
  qed
  with assms(1) show ?thesis by simp
qed

lemma sep_right:
  assumes "r' @ w = r @ [c]" "w \<noteq> []" "list_all is_space w" "r \<noteq> []" "\<not> is_space (last r)"
  shows "w = [c] \<and> r' = r"
proof -
  from assms(1) have "rev w @ rev r' = c # rev r" by (metis rev_append rev.simps(2) rev_rev_ident append_Cons append_Nil rev_singleton_conv)
  moreover have "rev w \<noteq> []" "list_all is_space (rev w)" "rev r \<noteq> []" "\<not> is_space (hd (rev r))"
    using assms(2-5) by (simp_all add: hd_rev list_all_iff)
  ultimately have "rev w = [c] \<and> rev r' = rev r" by (rule sep_left)
  then show ?thesis by (simp add: rev_singleton_conv)
qed

lemma run_left:
  assumes "xs @ r = xs' @ r'" "list_all P xs" "list_all P xs'"
    "r \<noteq> []" "\<not> P (hd r)" "r' \<noteq> []" "\<not> P (hd r')"
  shows "xs = xs' \<and> r = r'"
proof -
  have tw: "takeWhile P (ys @ t) = ys" if "list_all P ys" "t \<noteq> []" "\<not> P (hd t)" for ys t
    using that by (induction ys) (auto simp: neq_Nil_conv)
  have "xs = takeWhile P (xs @ r)" using assms(2,4,5) by (simp add: tw)
  also have "\<dots> = takeWhile P (xs' @ r')" using assms(1) by simp
  also have "\<dots> = xs'" using assms(3,6,7) by (simp add: tw)
  finally have "xs = xs'" .
  with assms(1) show ?thesis by simp
qed

lemma run_right:
  assumes "r @ xs = r' @ xs'" "list_all P xs" "list_all P xs'"
    "r \<noteq> []" "\<not> P (last r)" "r' \<noteq> []" "\<not> P (last r')"
  shows "xs = xs' \<and> r = r'"
proof -
  from assms(1) have "rev xs @ rev r = rev xs' @ rev r'" by (metis rev_append)
  moreover have "list_all P (rev xs)" "list_all P (rev xs')" "rev r \<noteq> []" "\<not> P (hd (rev r))"
    "rev r' \<noteq> []" "\<not> P (hd (rev r'))"
    using assms(2-7) by (simp_all add: hd_rev list_all_iff)
  ultimately have "rev xs = rev xs' \<and> rev r = rev r'" by (rule run_left)
  then show ?thesis by simp
qed

subsection \<open>A synthesized line has one parse\<close>

lemma row_parse_unique:
  assumes v: "valid_fields sno sn g ce nm dt am"
    and p: "row_parse (join_fields sno sn g ce nm dt am) sno' sn' g' ce' nm' dt' am'"
  shows "sno' = sno \<and> sn' = sn \<and> g' = g \<and> ce' = ce \<and> nm' = nm \<and> dt' = dt \<and> am' = am"
proof -
  let ?SP = "CHR 0x20"
  from v have sno: "list_all is_digit sno" "sno \<noteq> []"
    and sn: "is_sin sn" and g: "is_gov g"
    and ce: "list_all is_digit ce" "ce \<noteq> []"
    and nm: "nm \<noteq> []" "\<not> is_space (hd nm)" "\<not> is_space (last nm)"
    and dt: "is_date dt" and am: "is_amount am"
    by (auto simp: valid_fields_def digits_def plain_name_def)
  from p obtain w1 w2 w3 w4 w5 w6 where
    eq: "join_fields sno sn g ce nm dt am
          = sno' @ w1 @ sn' @ w2 @ gov_text g' @ w3 @ ce' @ w4 @ nm' @ w5 @ dt' @ w6 @ am'"
    and sno': "list_all is_digit sno'"
    and w1: "list_all is_space w1" "w1 \<noteq> []"
    and sn': "is_sin sn'"
    and w2: "list_all is_space w2" "w2 \<noteq> []"
    and g': "is_gov g'"
    and w3: "list_all is_space w3"
    and ce': "list_all is_digit ce'" "4 \<le> length ce'"
    and w4: "list_all is_space w4" "w4 \<noteq> []"
    and nm': "nm' \<noteq> []"
    and w5: "list_all is_space w5" "w5 \<noteq> []"
    and dt': "is_date dt'"
    and w6: "list_all is_space w6" "w6 \<noteq> []"
    and am': "is_amount am'"
    unfolding row_parse_def spaces_def digits_def by blast
  have ce'_ne: "ce' \<noteq> []" using ce'(2) by auto
  have not_digit_sp: "\<not> is_digit ?SP" by (simp add: is_digit_def)
  have hd_sp: "is_space (hd w)" if "list_all is_space w" "w \<noteq> []" for w
    using that by (cases w) simp_all
  have last_sp: "is_space (last w)" if "list_all is_space w" "w \<noteq> []" for w
    using that by (induction w) (auto split: if_splits)
  have hd_dig: "is_digit (hd w)" if "list_all is_digit w" "w \<noteq> []" for w
    using that by (cases w) simp_all
  define T where "T = nm @ ?SP # dt @ ?SP # am"
  define G where "G = (case g of None \<Rightarrow> [] | Some x \<Rightarrow> x @ [?SP])"
  define H where "H = G @ ce @ ?SP # T"
  define C where "C = nm' @ w5 @ dt' @ w6 @ am'"
  define B where "B = ce' @ w4 @ C"
  define A where "A = gov_text g' @ w3 @ B"
  have T_ne: "T \<noteq> []" "\<not> is_space (hd T)" using nm by (simp_all add: T_def)
  have H_ne: "H \<noteq> []" "\<not> is_space (hd H)"
  proof -
    show "H \<noteq> []" using ce(2) by (simp add: H_def)
    show "\<not> is_space (hd H)"
    proof (cases g)
      case None
      then show ?thesis
        using ce hd_dig [OF ce] by (simp add: H_def G_def digit_not_space)
    next
      case (Some x)
      with g gov_facts [of x] show ?thesis
        by (simp add: H_def G_def upper_not_space)
    qed
  qed
  have E0: "sno @ (?SP # sn @ ?SP # H) = sno' @ (w1 @ sn' @ w2 @ A)"
    using eq by (simp add: join_fields_def T_def G_def H_def C_def B_def A_def split: option.splits)
  \<comment> \<open>the student number\<close>
  have "sno = sno' \<and> ?SP # sn @ ?SP # H = w1 @ sn' @ w2 @ A"
    using E0 sno(1) sno'
  proof (rule run_left)
    show "?SP # sn @ ?SP # H \<noteq> []" by simp
    show "\<not> is_digit (hd (?SP # sn @ ?SP # H))" using not_digit_sp by simp
    show "w1 @ sn' @ w2 @ A \<noteq> []" using w1(2) by simp
    show "\<not> is_digit (hd (w1 @ sn' @ w2 @ A))"
      using w1 hd_sp [OF w1] by (simp add: space_not_digit)
  qed
  then have r_sno: "sno' = sno" and E1: "w1 @ (sn' @ w2 @ A) = ?SP # (sn @ ?SP # H)" by simp_all
  \<comment> \<open>the SIN\<close>
  have "w1 = [?SP] \<and> sn' @ w2 @ A = sn @ ?SP # H"
    using E1 w1(2) w1(1)
  proof (rule sep_left)
    show "sn @ ?SP # H \<noteq> []" by simp
    show "\<not> is_space (hd (sn @ ?SP # H))"
      using sin_facts [OF sn] by (simp add: digit_not_space)
  qed
  then have E2: "sn' @ (w2 @ A) = sn @ (?SP # H)" by simp
  have "length sn' = length sn" using sin_facts(1) [OF sn] sin_facts(1) [OF sn'] by simp
  with E2 have r_sn: "sn' = sn" and E3: "w2 @ A = ?SP # H" by simp_all
  \<comment> \<open>the government code\<close>
  have "w2 = [?SP] \<and> A = H" using E3 w2(2) w2(1) H_ne by (rule sep_left)
  then have E4: "gov_text g' @ w3 @ B = G @ ce @ ?SP # T" by (simp add: A_def H_def)
  have B_hd: "B \<noteq> []" "is_digit (hd B)"
    using ce'_ne hd_dig [OF ce'(1) ce'_ne] by (simp_all add: B_def)
  have gB: "g' = g \<and> B = ce @ ?SP # T"
  proof (cases g')
    case None
    note g'N = this
    show ?thesis
    proof (cases g)
      case None
      with g'N E4 have "w3 @ B = ce @ ?SP # T" by (simp add: gov_text_def G_def)
      then have "w3 = [] \<and> B = ce @ ?SP # T"
        using w3
      proof (rule sep_none)
        show "ce @ ?SP # T \<noteq> []" by simp
        show "\<not> is_space (hd (ce @ ?SP # T))"
          using ce hd_dig [OF ce] by (simp add: digit_not_space)
      qed
      with None g'N show ?thesis by simp
    next
      case (Some x)
      with g'N E4 have e: "w3 @ B = x @ ?SP # ce @ ?SP # T" by (simp add: gov_text_def G_def)
      from Some g have x: "x \<noteq> []" "is_upper (hd x)" using gov_facts [of x] by simp_all
      from e have "w3 = [] \<and> B = x @ ?SP # ce @ ?SP # T"
        using w3
      proof (rule sep_none)
        show "x @ ?SP # ce @ ?SP # T \<noteq> []" by simp
        show "\<not> is_space (hd (x @ ?SP # ce @ ?SP # T))"
          using x by (simp add: upper_not_space)
      qed
      then have "hd B = hd x" using x(1) by simp
      with B_hd(2) x(2) have False using upper_not_digit by auto
      then show ?thesis ..
    qed
  next
    case (Some x')
    note g'S = this
    from Some g' have x': "length x' = 2" "x' \<noteq> []" "is_upper (hd x')"
      using gov_facts [of x'] by simp_all
    show ?thesis
    proof (cases g)
      case None
      with g'S E4 have "x' @ w3 @ B = ce @ ?SP # T" by (simp add: gov_text_def G_def)
      then have "hd x' = hd ce" using x'(2) ce(2) by (metis hd_append2)
      with x'(3) hd_dig [OF ce] have False using upper_not_digit by auto
      then show ?thesis ..
    next
      case (Some x)
      from Some g have x: "length x = 2" using gov_facts [of x] by simp
      from Some g'S E4 have "x' @ (w3 @ B) = x @ (?SP # ce @ ?SP # T)"
        by (simp add: gov_text_def G_def)
      with x x'(1) have xx: "x' = x" and e: "w3 @ B = ?SP # (ce @ ?SP # T)" by simp_all
      have "w3 \<noteq> []"
      proof
        assume "w3 = []"
        with e have "hd B = ?SP" by simp
        with B_hd(2) not_digit_sp show False by simp
      qed
      with e have "w3 = [?SP] \<and> B = ce @ ?SP # T"
        using w3
      proof (rule sep_left)
        show "ce @ ?SP # T \<noteq> []" by simp
        show "\<not> is_space (hd (ce @ ?SP # T))"
          using ce hd_dig [OF ce] by (simp add: digit_not_space)
      qed
      with Some g'S xx show ?thesis by simp
    qed
  qed
  then have r_g: "g' = g" and E5: "ce' @ (w4 @ C) = ce @ (?SP # T)" by (simp_all add: B_def)
  \<comment> \<open>the certificate number\<close>
  have "ce' = ce \<and> w4 @ C = ?SP # T"
    using E5 ce'(1) ce(1)
  proof (rule run_left)
    show "w4 @ C \<noteq> []" using w4(2) by simp
    show "\<not> is_digit (hd (w4 @ C))" using w4 hd_sp [OF w4] by (simp add: space_not_digit)
    show "?SP # T \<noteq> []" by simp
    show "\<not> is_digit (hd (?SP # T))" using not_digit_sp by simp
  qed
  then have r_ce: "ce' = ce" and E6: "w4 @ C = ?SP # T" by simp_all
  have "w4 = [?SP] \<and> C = T" using E6 w4(2) w4(1) T_ne by (rule sep_left)
  then have E7: "(nm' @ w5 @ dt' @ w6) @ am' = (nm @ ?SP # dt @ [?SP]) @ am"
    by (simp add: C_def T_def)
  \<comment> \<open>the amount, from the right\<close>
  have "am' = am \<and> nm' @ w5 @ dt' @ w6 = nm @ ?SP # dt @ [?SP]"
    using E7 amount_facts(2) [OF am'] amount_facts(2) [OF am]
  proof (rule run_right)
    show "nm' @ w5 @ dt' @ w6 \<noteq> []" using w6(2) by simp
    show "\<not> \<not> is_space (last (nm' @ w5 @ dt' @ w6))" using w6 last_sp [OF w6] by simp
    show "nm @ ?SP # dt @ [?SP] \<noteq> []" by simp
    show "\<not> \<not> is_space (last (nm @ ?SP # dt @ [?SP]))" by (simp add: space_is_space)
  qed
  then have r_am: "am' = am" and E8: "(nm' @ w5 @ dt') @ w6 = (nm @ ?SP # dt) @ [?SP]"
    by simp_all
  \<comment> \<open>the date\<close>
  have "w6 = [?SP] \<and> nm' @ w5 @ dt' = nm @ ?SP # dt"
    using E8 w6(2) w6(1)
  proof (rule sep_right)
    show "nm @ ?SP # dt \<noteq> []" by simp
    show "\<not> is_space (last (nm @ ?SP # dt))"
      using date_facts [OF dt] by (simp add: digit_not_space)
  qed
  then have E9: "(nm' @ w5) @ dt' = (nm @ [?SP]) @ dt" by simp
  have "length dt' = length dt" using date_facts(1) [OF dt] date_facts(1) [OF dt'] by simp
  then have "(nm' @ w5) @ dt' = (nm @ [?SP]) @ dt \<longleftrightarrow> nm' @ w5 = nm @ [?SP] \<and> dt' = dt"
    by (intro append_eq_append_conv) simp
  with E9 have r_dt: "dt' = dt" and E10: "nm' @ w5 = nm @ [?SP]" by blast+
  \<comment> \<open>the name\<close>
  have "w5 = [?SP] \<and> nm' = nm" using E10 w5(2) w5(1) nm(1,3) by (rule sep_right)
  with r_sno r_sn r_g r_ce r_dt r_am show ?thesis by simp
qed

subsection \<open>The round trip\<close>

lemma row_parse_join:
  assumes v: "valid_fields sno sn g ce nm dt am"
  shows "row_parse (join_fields sno sn g ce nm dt am) sno sn g ce nm dt am"
proof -
  let ?SP = "CHR 0x20"
  let ?w3 = "case g of None \<Rightarrow> [] | Some x \<Rightarrow> [?SP]"
  have sp: "spaces [?SP]" "spaces ?w3"
    by (simp_all add: spaces_def space_is_space split: option.splits)
  have eq: "join_fields sno sn g ce nm dt am
        = sno @ [?SP] @ sn @ [?SP] @ gov_text g @ ?w3 @ ce @ [?SP] @ nm @ [?SP] @ dt @ [?SP] @ am"
    by (simp add: join_fields_def gov_text_def split: option.splits)
  from v have f: "digits sno" "3 \<le> length sno" "is_sin sn" "is_gov g" "digits ce"
    "4 \<le> length ce" "list_all is_dot nm" "nm \<noteq> []" "is_date dt" "is_amount am"
    by (simp_all add: valid_fields_def plain_name_def)
  show ?thesis
    unfolding row_parse_def
    using eq f sp
    by (intro exI [of _ "[?SP]"] exI [of _ ?w3]) simp
qed

lemma edge_clean_line:
  assumes v: "valid_fields sno sn g ce nm dt am"
  shows "edge_clean (join_fields sno sn g ce nm dt am)"
proof -
  let ?SP = "CHR 0x20"
  from v have sno: "edge_clean sno"
    by (intro edge_clean_solid digits_solid) (auto simp: valid_fields_def)
  from v have sn: "edge_clean sn"
    using sin_facts [of sn] by (intro edge_clean_solid) (simp_all add: valid_fields_def)
  from v have ce: "edge_clean ce"
    by (intro edge_clean_solid digits_solid) (auto simp: valid_fields_def)
  from v have nm: "edge_clean nm" by (simp add: valid_fields_def plain_name_def edge_clean_def)
  from v have dt: "edge_clean dt"
    using date_facts [of dt] by (intro edge_clean_solid) (simp_all add: valid_fields_def)
  from v have am: "edge_clean am"
    using amount_facts [of am] by (intro edge_clean_solid) (simp_all add: valid_fields_def)
  have t: "edge_clean (ce @ ?SP # nm @ ?SP # dt @ ?SP # am)"
    using ce nm dt am by (intro edge_clean_join)
  have "edge_clean ((case g of None \<Rightarrow> [] | Some x \<Rightarrow> x @ [?SP]) @ ce @ ?SP # nm @ ?SP # dt @ ?SP # am)"
  proof (cases g)
    case None
    with t show ?thesis by simp
  next
    case (Some x)
    with v have "is_gov (Some x)" by (simp add: valid_fields_def)
    then have "edge_clean x" using gov_facts [of x] by (intro edge_clean_solid) simp_all
    then have "edge_clean (x @ ?SP # ce @ ?SP # nm @ ?SP # dt @ ?SP # am)"
      using t by (rule edge_clean_join)
    with Some show ?thesis by simp
  qed
  then have "edge_clean (sno @ ?SP # sn @ ?SP # (case g of None \<Rightarrow> [] | Some x \<Rightarrow> x @ [?SP])
                @ ce @ ?SP # nm @ ?SP # dt @ ?SP # am)"
    using sno sn by (intro edge_clean_join)
  then show ?thesis by (simp add: join_fields_def)
qed

text \<open>
  Claim C4, as amended. Take a student number of at least 3 digits, a SIN of the form
  ddd-ddd-ddd, no government code or one of exactly two upper-case letters \<open>A-Z\<close>, a
  certificate number of at least 4 digits, a name that the normalizer leaves as it is
  (not empty, no line break, tab or no-break space, no two spaces side by side, no
  white space at either end), a date of the form dd/dd/dd and an amount (an optional
  \<open>$\<close>, digits and commas, a point, two digits). The line that joins them with single
  spaces parses to exactly these field values.
\<close>

theorem row_round_trip:
  "valid_fields sno sn g ce nm dt am \<Longrightarrow>
   parseRow (join_fields sno sn g ce nm dt am) = Some (row_of sno sn g ce nm dt am)"
proof -
  assume v: "valid_fields sno sn g ce nm dt am"
  let ?l = "join_fields sno sn g ce nm dt am"
  have n: "normalize ?l = ?l" using edge_clean_line [OF v] by (rule normalize_id)
  have p: "row_parse ?l sno sn g ce nm dt am" using v by (rule row_parse_join)
  then have "row_grammar (normalize ?l)" unfolding n row_grammar_def by blast
  then have "parseRow ?l \<noteq> None" by (simp add: parseRow_None)
  then obtain r where r: "parseRow ?l = Some r" by auto
  from parseRow_Some [OF r] obtain g' sno' sn' ce' nm' dt' am' where
    p': "row_parse ?l sno' sn' g' ce' nm' dt' am'" and r': "r = row_of sno' sn' g' ce' nm' dt' am'"
    unfolding n by blast
  from row_parse_unique [OF v p'] r' have "r = row_of sno sn g ce nm dt am" by simp
  with r show ?thesis by simp
qed

theorem row_round_trip_witness:
  "valid_fields ''000123'' ''123-456-789'' (Some ''ON'') ''45678'' ''DOE JOHN'' ''08/09/23'' ''$2,205.00''
   \<and> join_fields ''000123'' ''123-456-789'' (Some ''ON'') ''45678'' ''DOE JOHN'' ''08/09/23'' ''$2,205.00''
       = ''000123 123-456-789 ON 45678 DOE JOHN 08/09/23 $2,205.00''
   \<and> parseRow ''000123 123-456-789 ON 45678 DOE JOHN 08/09/23 $2,205.00''
       = Some (row_of ''000123'' ''123-456-789'' (Some ''ON'') ''45678'' ''DOE JOHN'' ''08/09/23'' ''$2,205.00'')"
proof -
  have sin: "is_sin ''123-456-789''"
    unfolding is_sin_def
    by (intro exI [of _ "''123''"] exI [of _ "''456''"] exI [of _ "''789''"])
       (simp add: digits_def is_digit_def)
  have date: "is_date ''08/09/23''"
    unfolding is_date_def
    by (intro exI [of _ "''08''"] exI [of _ "''09''"] exI [of _ "''23''"])
       (simp add: digits_def is_digit_def)
  have amt: "is_amount ''$2,205.00''"
    unfolding is_amount_def
    by (intro exI [of _ "''$''"] exI [of _ "''2,205''"] exI [of _ "''00''"])
       (simp add: digits_def is_digit_def)
  have nm: "plain_name ''DOE JOHN''"
    by (simp add: plain_name_def is_dot_def is_space_def)
  have v: "valid_fields ''000123'' ''123-456-789'' (Some ''ON'') ''45678'' ''DOE JOHN'' ''08/09/23'' ''$2,205.00''"
    using sin date amt nm
    by (simp add: valid_fields_def digits_def is_digit_def is_gov_def is_upper_def)
  have j: "join_fields ''000123'' ''123-456-789'' (Some ''ON'') ''45678'' ''DOE JOHN'' ''08/09/23'' ''$2,205.00''
       = ''000123 123-456-789 ON 45678 DOE JOHN 08/09/23 $2,205.00''"
    by (simp add: join_fields_def)
  from row_round_trip [OF v] v j show ?thesis by simp
qed

theorem row_round_trip_counterexample:
  "spec_fields ''000123'' ''123-456-789'' (Some ''on'') ''45678'' ''DOE JOHN'' ''08/09/23'' ''$2,205.00''
   \<and> parseRow (join_fields ''000123'' ''123-456-789'' (Some ''on'') ''45678'' ''DOE JOHN'' ''08/09/23'' ''$2,205.00'')
     = None
   \<and> spec_fields ''000123'' ''123-456-789'' (Some ''ON'') ''45678'' ''DOE  JOHN'' ''08/09/23'' ''$2,205.00''
   \<and> parseRow (join_fields ''000123'' ''123-456-789'' (Some ''ON'') ''45678'' ''DOE  JOHN'' ''08/09/23'' ''$2,205.00'')
     = Some (row_of ''000123'' ''123-456-789'' (Some ''ON'') ''45678'' ''DOE JOHN'' ''08/09/23'' ''$2,205.00'')
   \<and> row_of ''000123'' ''123-456-789'' (Some ''ON'') ''45678'' ''DOE JOHN'' ''08/09/23'' ''$2,205.00''
     \<noteq> row_of ''000123'' ''123-456-789'' (Some ''ON'') ''45678'' ''DOE  JOHN'' ''08/09/23'' ''$2,205.00''"
proof -
  have sin: "is_sin ''123-456-789''"
    unfolding is_sin_def
    by (intro exI [of _ "''123''"] exI [of _ "''456''"] exI [of _ "''789''"])
       (simp add: digits_def is_digit_def)
  have date: "is_date ''08/09/23''"
    unfolding is_date_def
    by (intro exI [of _ "''08''"] exI [of _ "''09''"] exI [of _ "''23''"])
       (simp add: digits_def is_digit_def)
  have amt: "is_amount ''$2,205.00''"
    unfolding is_amount_def
    by (intro exI [of _ "''$''"] exI [of _ "''2,205''"] exI [of _ "''00''"])
       (simp add: digits_def is_digit_def)
  have s1: "spec_fields ''000123'' ''123-456-789'' (Some ''on'') ''45678'' ''DOE JOHN'' ''08/09/23'' ''$2,205.00''"
    using sin date amt
    by (simp add: spec_fields_def digits_def is_digit_def is_letter_def is_lower_def)
  have s2: "spec_fields ''000123'' ''123-456-789'' (Some ''ON'') ''45678'' ''DOE  JOHN'' ''08/09/23'' ''$2,205.00''"
    using sin date amt
    by (simp add: spec_fields_def digits_def is_digit_def is_letter_def is_upper_def)
  have p1: "parseRow (join_fields ''000123'' ''123-456-789'' (Some ''on'') ''45678'' ''DOE JOHN'' ''08/09/23'' ''$2,205.00'')
     = None"
    by code_simp
  have p2: "parseRow (join_fields ''000123'' ''123-456-789'' (Some ''ON'') ''45678'' ''DOE  JOHN'' ''08/09/23'' ''$2,205.00'')
     = Some (row_of ''000123'' ''123-456-789'' (Some ''ON'') ''45678'' ''DOE JOHN'' ''08/09/23'' ''$2,205.00'')"
    by code_simp
  show ?thesis using s1 s2 p1 p2 by (simp add: row_of_def)
qed

end
